theory Spec2Isabelle
  imports Main
begin

section \<open>The multi-part package downloader (download script, 176 lines)\<close>

text \<open>
  The script downloads one package either in \<open>PARTS\<close> byte-range segments that are
  concatenated afterwards (\<open>multiPartDownload\<close>) or as one plain stream (the tail of
  \<open>downloadWithResume\<close>). The embedding keeps the source's functions and names. What
  the source leaves to Node and to the HTTP client is explicit here:
  \<^item> the disk is a map from paths to file contents;
  \<^item> \<open>process.stdout.write\<close> and \<open>console.log\<close> append to a list of outputs;
  \<^item> the running \<open>setInterval\<close> timer is a field holding the callback's closure,
    \<open>None\<close> once \<open>clearInterval\<close> ran;
  \<^item> the HTTP client is the environment: the two HEAD responses are values, and the
    streams are a schedule of events (file opened, chunk written, finish, error, timer
    tick) that Node's event loop dispatches one at a time;
  \<^item> an \<open>await\<close> that is never resumed is the result \<open>None\<close>.
  Numbers are unbounded integers. The source computes in doubles, which hold every
  integer up to \<open>2^53\<close> exactly and round larger ones: \<open>parseInt\<close> rounds its
  result with \<open>toDouble\<close>, and the statements about the segment arithmetic carry the
  bound under which every number of lines 85 to 90 is exact.
\<close>

subsection \<open>Values\<close>

type_synonym byte = char
type_synonym path = string
type_synonym filesystem = "path \<rightharpoonup> byte list"
type_synonym headers = "string \<rightharpoonup> string"

text \<open>What a rejected promise carries: the HTTP client's errors and stream errors of \<open>fs\<close>.\<close>

datatype error = NetworkError | HTTPError nat | TimeoutError | FsError path

text \<open>The values the variable \<open>fileSize\<close> takes: never assigned, \<open>NaN\<close>, or a number.\<close>

datatype jsnum = Undefined | NaN | Num int

fun truthy :: "jsnum \<Rightarrow> bool" where
  "truthy Undefined = False"
| "truthy NaN = False"
| "truthy (Num n) = (n \<noteq> 0)"

text \<open>\<open>x > m\<close> for a number \<open>m\<close>: false when \<open>x\<close> is \<open>undefined\<close> or \<open>NaN\<close>.\<close>

fun greater :: "jsnum \<Rightarrow> int \<Rightarrow> bool" where
  "greater (Num n) m = (m < n)"
| "greater _ m = False"

text \<open>\<open>x || 0\<close>.\<close>

fun orZero :: "jsnum \<Rightarrow> int" where
  "orZero (Num n) = n"
| "orZero _ = 0"

text \<open>
  The two console messages, both written with \<open>console.log\<close>:
  \<open>HeadFailedFallback\<close> is the message of the \<open>catch\<close> block of line 121 (the HEAD
  request failed, falling back to a plain download), \<open>RangeMultiPart\<close> that of line 124
  (the server supports Range, using the multi-part download).
\<close>

datatype message = HeadFailedFallback | RangeMultiPart

text \<open>
  One write to standard output. \<open>Progress sum total\<close> is the line
  \<open>\r<percent>% [sum/total]\<close>, \<open>ProgressBytes n\<close> the line \<open>\r<n> bytes\<close>.
\<close>

datatype outLine = Progress nat int | ProgressBytes nat | Newline | Log message

definition PARTS :: nat where
  "PARTS = 4"

subsection \<open>\<open>parseInt(s, 10)\<close> and template literals\<close>

definition isWhiteSpace :: "char \<Rightarrow> bool" where
  "isWhiteSpace c = (of_char c \<in> {9::nat, 10, 11, 12, 13, 32, 160})"

definition isDigit :: "char \<Rightarrow> bool" where
  "isDigit c = (48 \<le> (of_char c :: nat) \<and> (of_char c :: nat) \<le> 57)"

definition digitVal :: "char \<Rightarrow> int" where
  "digitVal c = int (of_char c) - 48"

text \<open>
  The result of \<open>parseInt\<close> is a double: an integer below \<open>2^53\<close> is itself, a larger
  one is rounded to 53 significant bits, to the nearest and at a tie to the even one.
  (Integers from \<open>2^1024\<close> on would be \<open>Infinity\<close>; no size header is that long.)
\<close>

fun bitLength :: "nat \<Rightarrow> nat" where
  "bitLength n = (if n = 0 then 0 else Suc (bitLength (n div 2)))"

declare bitLength.simps [simp del]

definition toDouble :: "nat \<Rightarrow> nat" where
  "toDouble n =
     (if n < 2 ^ 53 then n
      else (let e = bitLength n - 53;
                q = n div 2 ^ e;
                r = n mod 2 ^ e;
                h = 2 ^ (e - 1)
            in (if h < r \<or> (r = h \<and> odd q) then q + 1 else q) * 2 ^ e))"

text \<open>
  Leading white space is skipped, one sign is read, then the longest run of decimal
  digits; no digit at all gives \<open>NaN\<close>.
\<close>

definition parseInt :: "string \<Rightarrow> jsnum" where
  "parseInt s =
     (let t = dropWhile isWhiteSpace s;
          sign = (case t of c # r \<Rightarrow> if c = CHR ''-'' then (-1::int) else 1 | [] \<Rightarrow> 1);
          u = (case t of c # r \<Rightarrow> if c = CHR ''-'' \<or> c = CHR ''+'' then r else t | [] \<Rightarrow> t);
          ds = takeWhile isDigit u
      in if ds = [] then NaN
         else Num (sign * int (toDouble (nat (foldl (\<lambda>a c. 10 * a + digitVal c) 0 ds)))))"

definition digitChar :: "nat \<Rightarrow> char" where
  "digitChar d = ''0123456789'' ! d"

text \<open>The decimal digits of \<open>i\<close>, as \<open>${i}\<close> prints a non-negative integer.\<close>

function decimal :: "nat \<Rightarrow> string" where
  "decimal n = (if n < 10 then [digitChar n] else decimal (n div 10) @ [digitChar (n mod 10)])"
  by pat_completeness auto
termination
  by (relation "measure (\<lambda>n. n)") auto

declare decimal.simps [simp del]

subsection \<open>The probe: \<open>getFileSize\<close> and \<open>supportsRange\<close>\<close>

text \<open>
  Each function sends its own HEAD request. The argument is what \<open>await got(...)\<close>
  gives: \<open>Inl\<close> when the client throws (no connection, a status it rejects, a
  timeout), \<open>Inr\<close> the response headers otherwise. A missing header reads as
  \<open>undefined\<close>, which \<open>parseInt\<close> turns into the string \<open>undefined\<close>. The client
  itself refuses a response whose \<open>content-length\<close> is not a run of digits (its HTTP
  parser fails, so \<open>await got(...)\<close> throws): that run is the case \<open>Inl\<close>, and in the
  case \<open>Inr\<close> the header is either missing or a decimal number.
\<close>

definition getFileSize :: "error + headers \<Rightarrow> error + jsnum" where
  "getFileSize res =
     (case res of
        Inl e \<Rightarrow> Inl e
      | Inr hs \<Rightarrow>
          Inr (case hs ''content-length'' of
                 None \<Rightarrow> parseInt ''undefined''
               | Some v \<Rightarrow> parseInt v))"

definition supportsRange :: "error + headers \<Rightarrow> error + bool" where
  "supportsRange res =
     (case res of
        Inl e \<Rightarrow> Inl e
      | Inr hs \<Rightarrow> Inr (hs ''accept-ranges'' = Some ''bytes''))"

subsection \<open>Requests\<close>

text \<open>
  The options object handed to \<open>got\<close>. \<open>optRange\<close> is the \<open>Range\<close> header
  \<open>bytes=<start>-<end>\<close>; the timeouts are in milliseconds.
\<close>

record gotOptions =
  optHttp2 :: bool
  optRange :: "(int \<times> int) option"
  optRetryLimit :: nat
  optTimeoutRequest :: nat
  optTimeoutConnect :: nat
  optTimeoutResponse :: nat
  optTimeoutSocket :: nat
  optIsStream :: bool

text \<open>
  A started download: the request and the path of the write stream it is piped into
  (\<open>fs.createWriteStream(dest)\<close>, flags \<open>w\<close>: the file is created or truncated when
  the stream opens).
\<close>

record task =
  taskOptions :: gotOptions
  taskDest :: path

definition downloadPart :: "string \<Rightarrow> path \<Rightarrow> int \<Rightarrow> int \<Rightarrow> nat \<Rightarrow> task" where
  "downloadPart url dest start end partIdx =
     \<lparr> taskOptions =
         \<lparr> optHttp2 = True,
           optRange = Some (start, end),
           optRetryLimit = 5,
           optTimeoutRequest = 300000,
           optTimeoutConnect = 60000,
           optTimeoutResponse = 300000,
           optTimeoutSocket = 300000,
           optIsStream = True \<rparr>,
       taskDest = dest \<rparr>"


subsection \<open>\<open>concatParts\<close>\<close>

text \<open>
  The write stream on \<open>dest\<close> truncates the file; every part is piped into it and
  unlinked once its read stream ended. A part that cannot be read rejects, and the
  function throws with the parts before it already consumed. Chunks reach the file in
  the order they were piped, so a part is one append. The callers pass part files that
  differ from \<open>dest\<close> and from each other.
\<close>

fun concatLoop :: "path \<Rightarrow> path list \<Rightarrow> filesystem \<Rightarrow> (error + unit) \<times> filesystem" where
  "concatLoop dest [] dsk = (Inr (), dsk)"
| "concatLoop dest (part # rest) dsk =
     (case dsk part of
        None \<Rightarrow> (Inl (FsError part), dsk)
      | Some content \<Rightarrow>
          (let written = (case dsk dest of None \<Rightarrow> [] | Some d \<Rightarrow> d);
               dsk1 = dsk(dest \<mapsto> written @ content);
               dsk2 = dsk1(part := None)
           in concatLoop dest rest dsk2))"

definition concatParts :: "path \<Rightarrow> path list \<Rightarrow> filesystem \<Rightarrow> (error + unit) \<times> filesystem" where
  "concatParts dest partFiles dsk = concatLoop dest partFiles (dsk(dest \<mapsto> []))"

subsection \<open>The state of the process\<close>

text \<open>
  The closure of the interval callback of \<open>multiPartDownload\<close>: the part files, the
  array \<open>downloaded\<close> it updates, and \<open>total\<close>.
\<close>

record closure =
  cParts :: nat
  cPartFiles :: "path list"
  cDownloaded :: "nat list"
  cTotal :: int

datatype promise = Pending | Resolved | Rejected error

record state =
  disk :: filesystem
  stdout :: "outLine list"
  timer :: "closure option"
  tasks :: "task list"
  opened :: "bool list"
  promises :: "promise list"

text \<open>
  What the event loop dispatches while segment downloads run. The index is the
  segment's. \<open>Error\<close> is the \<open>error\<close> event of the download stream or of the file,
  the one event on which \<open>downloadPart\<close> rejects its promise. The script listens to
  \<open>finish\<close> and \<open>error\<close> only: it makes each request once and has no handler that
  would make it again, so a request that fails reaches it as this event.
\<close>

datatype event =
    FileOpen nat
  | Data nat "byte list"
  | Finish nat
  | Error nat error
  | Tick

subsection \<open>The progress monitor\<close>

text \<open>
  The body of the interval callback, lines 98 to 105 (\<open>sm\<close> is its variable
  \<open>sum\<close>). \<open>partFiles\<close> and \<open>downloaded\<close> have \<open>parts\<close> elements wherever the
  source calls it.
\<close>

function tickLoop :: "nat \<Rightarrow> nat \<Rightarrow> path list \<Rightarrow> filesystem \<Rightarrow> nat list \<Rightarrow> nat \<Rightarrow> nat list \<times> nat" where
  "tickLoop i parts partFiles dsk downloaded sm =
     (if i < parts then
        (let downloaded' =
               (case dsk (partFiles ! i) of
                  Some content \<Rightarrow> downloaded[i := length content]
                | None \<Rightarrow> downloaded);
             sm' = sm + downloaded' ! i
         in tickLoop (i + 1) parts partFiles dsk downloaded' sm')
      else (downloaded, sm))"
  by pat_completeness auto
termination
  by (relation "measure (\<lambda>(i, parts, _). parts - i)") auto

declare tickLoop.simps [simp del]

definition tick :: "closure \<Rightarrow> filesystem \<Rightarrow> closure \<times> outLine" where
  "tick c dsk =
     (let (downloaded', sm) = tickLoop 0 (cParts c) (cPartFiles c) dsk (cDownloaded c) 0
      in (c\<lparr>cDownloaded := downloaded'\<rparr>, Progress sm (cTotal c)))"

subsection \<open>The event loop\<close>

text \<open>
  A write stream opens its file once, before its first chunk and before \<open>finish\<close>; the
  open is carried out first when an event of the stream arrives with the open still due.
\<close>

definition openFile :: "nat \<Rightarrow> state \<Rightarrow> state" where
  "openFile i st =
     (if opened st ! i then st
      else st\<lparr>disk := (disk st)(taskDest (tasks st ! i) \<mapsto> []),
              opened := (opened st)[i := True]\<rparr>)"

definition appendFile :: "path \<Rightarrow> byte list \<Rightarrow> filesystem \<Rightarrow> filesystem" where
  "appendFile p bs dsk = dsk(p \<mapsto> (case dsk p of None \<Rightarrow> [] | Some c \<Rightarrow> c) @ bs)"

text \<open>
  A stream's events are handled while its promise is pending; an event of a settled
  stream, or one whose index names no stream, changes nothing. A tick runs the interval
  callback when the timer is set and is nothing otherwise.
\<close>

definition live :: "nat \<Rightarrow> state \<Rightarrow> bool" where
  "live i st = (i < length (tasks st) \<and> promises st ! i = Pending)"

fun dispatch :: "event \<Rightarrow> state \<Rightarrow> state" where
  "dispatch Tick st =
     (case timer st of
        None \<Rightarrow> st
      | Some c \<Rightarrow>
          (let (c', line) = tick c (disk st)
           in st\<lparr>timer := Some c', stdout := stdout st @ [line]\<rparr>))"
| "dispatch (FileOpen i) st = (if live i st then openFile i st else st)"
| "dispatch (Data i bs) st =
     (if live i st then
        (let st1 = openFile i st
         in st1\<lparr>disk := appendFile (taskDest (tasks st ! i)) bs (disk st1)\<rparr>)
      else st)"
| "dispatch (Finish i) st =
     (if live i st then
        (let st1 = openFile i st
         in st1\<lparr>promises := (promises st1)[i := Resolved]\<rparr>)
      else st)"
| "dispatch (Error i e) st =
     (if live i st then st\<lparr>promises := (promises st)[i := Rejected e]\<rparr> else st)"

text \<open>The events that are dispatched after an \<open>async\<close> function has settled.\<close>

fun eventLoop :: "event list \<Rightarrow> state \<Rightarrow> state" where
  "eventLoop [] st = st"
| "eventLoop (e # es) st = eventLoop es (dispatch e st)"

fun firstRejected :: "promise list \<Rightarrow> error option" where
  "firstRejected [] = None"
| "firstRejected (Rejected e # ps) = Some e"
| "firstRejected (p # ps) = firstRejected ps"

text \<open>
  \<open>await Promise.all(tasks)\<close>: resumes when every promise is resolved, throws at the
  first rejection, and stays suspended (\<open>None\<close>) when the schedule ends before either.
  The events not yet dispatched are returned with the state.
\<close>

fun awaitAll :: "event list \<Rightarrow> state \<Rightarrow> (error + unit) option \<times> event list \<times> state" where
  "awaitAll es st =
     (case firstRejected (promises st) of
        Some e \<Rightarrow> (Some (Inl e), es, st)
      | None \<Rightarrow>
          if list_all (\<lambda>p. p = Resolved) (promises st) then (Some (Inr ()), es, st)
          else (case es of
                  [] \<Rightarrow> (None, [], st)
                | e # es' \<Rightarrow> awaitAll es' (dispatch e st)))"

declare awaitAll.simps [simp del]

subsection \<open>\<open>multiPartDownload\<close>\<close>

text \<open>
  \<open>Math.ceil(fileSize / PARTS)\<close>. With no part at all the source divides by zero; the
  loops then never run and the value is not used. The source rounds the quotient to a
  double before taking the ceiling. For \<open>0 \<le> fileSize \<le> 2^53\<close> the rounded quotient lies
  strictly between the same two integers as the exact one (or is the same integer), so
  the ceiling is the exact one, which is what this definition computes.
\<close>

definition ceilDiv :: "int \<Rightarrow> nat \<Rightarrow> int" where
  "ceilDiv n p = - ((- n) div int p)"

text \<open>
  The loop of lines 88 to 94; \<open>PARTS\<close> is the argument \<open>parts\<close>. The products and
  differences are exact integers here. The largest number the source computes is
  \<open>PARTS * partSize\<close>, which is below \<open>fileSize + PARTS\<close>; so for
  \<open>fileSize + PARTS \<le> 2^53\<close> the source's doubles are these integers, and beyond that
  bound the source's ranges are rounded and need not be the ones computed here.
\<close>

function partsLoop ::
  "nat \<Rightarrow> nat \<Rightarrow> string \<Rightarrow> path \<Rightarrow> int \<Rightarrow> int \<Rightarrow> path list \<Rightarrow> task list \<Rightarrow> path list \<times> task list" where
  "partsLoop i parts url dest partSize fileSize partFiles tsks =
     (if i < parts then
        (let start = int i * partSize;
             end = min ((int i + 1) * partSize - 1) (fileSize - 1);
             partFile = dest @ ''.part'' @ decimal i
         in partsLoop (i + 1) parts url dest partSize fileSize
              (partFiles @ [partFile])
              (tsks @ [downloadPart url partFile start end i]))
      else (partFiles, tsks))"
  by pat_completeness auto
termination
  by (relation "measure (\<lambda>(i, parts, _). parts - i)") auto

declare partsLoop.simps [simp del]

definition startParts :: "nat \<Rightarrow> string \<Rightarrow> path \<Rightarrow> int \<Rightarrow> path list \<times> task list" where
  "startParts parts url dest fileSize =
     partsLoop 0 parts url dest (ceilDiv fileSize parts) fileSize [] []"

text \<open>The byte ranges requested by the segments of one transfer, in index order.\<close>

definition segmentRanges :: "nat \<Rightarrow> string \<Rightarrow> path \<Rightarrow> int \<Rightarrow> (int \<times> int) list" where
  "segmentRanges parts url dest fileSize =
     List.map_filter (\<lambda>t. optRange (taskOptions t)) (snd (startParts parts url dest fileSize))"

definition multiPartDownload ::
  "nat \<Rightarrow> string \<Rightarrow> path \<Rightarrow> int \<Rightarrow> event list \<Rightarrow> state \<Rightarrow> (error + unit) option \<times> event list \<times> state" where
  "multiPartDownload parts url dest fileSize es st =
     (let (partFiles, tsks) = startParts parts url dest fileSize;
          st1 = st\<lparr>tasks := tsks,
                   opened := replicate (length tsks) False,
                   promises := replicate (length tsks) Pending,
                   timer := Some \<lparr>cParts = parts, cPartFiles = partFiles,
                                   cDownloaded = replicate parts 0, cTotal = fileSize\<rparr>\<rparr>
      in case awaitAll es st1 of
           (None, es', st2) \<Rightarrow> (None, es', st2)
         | (Some (Inl e), es', st2) \<Rightarrow> (Some (Inl e), es', st2)
         | (Some (Inr u), es', st2) \<Rightarrow>
             (let st3 = st2\<lparr>timer := None, stdout := stdout st2 @ [Newline]\<rparr>;
                  (r, disk') = concatParts dest partFiles (disk st3)
              in (Some r, es', st3\<lparr>disk := disk'\<rparr>)))"

subsection \<open>The plain download and \<open>downloadWithResume\<close>\<close>

text \<open>
  The events of the single stream: the file opens, a chunk is written, the client
  reports \<open>downloadProgress\<close> with \<open>transferred\<close> and \<open>total\<close> (\<open>None\<close> when the
  length is unknown), the file finishes, or a stream fails.
\<close>

datatype streamEvent =
    SOpen
  | SData "byte list"
  | SProgress nat "nat option"
  | SFinish
  | SError error

text \<open>
  The promise of lines 141 to 161, with the event handlers inlined. \<open>tot\<close> is the
  local variable \<open>total\<close>; \<open>isOpen\<close> tells whether the write stream has opened \<open>dest\<close>.
\<close>

fun streamLoop :: "path \<Rightarrow> streamEvent list \<Rightarrow> bool \<Rightarrow> int \<Rightarrow> state \<Rightarrow> (error + unit) option \<times> state" where
  "streamLoop dest [] isOpen tot st = (None, st)"
| "streamLoop dest (SOpen # es) isOpen tot st =
     streamLoop dest es True tot
       (if isOpen then st else st\<lparr>disk := (disk st)(dest \<mapsto> [])\<rparr>)"
| "streamLoop dest (SData bs # es) isOpen tot st =
     (let st1 = (if isOpen then st else st\<lparr>disk := (disk st)(dest \<mapsto> [])\<rparr>)
      in streamLoop dest es True tot (st1\<lparr>disk := appendFile dest bs (disk st1)\<rparr>))"
| "streamLoop dest (SProgress transferred ptotal # es) isOpen tot st =
     (let tot' = (case ptotal of None \<Rightarrow> tot | Some t \<Rightarrow> if t = 0 then tot else int t);
          line = (if tot' \<noteq> 0 then Progress transferred tot' else ProgressBytes transferred)
      in streamLoop dest es isOpen tot' (st\<lparr>stdout := stdout st @ [line]\<rparr>))"
| "streamLoop dest (SFinish # es) isOpen tot st =
     (let st1 = (if isOpen then st else st\<lparr>disk := (disk st)(dest \<mapsto> [])\<rparr>)
      in (Some (Inr ()), st1\<lparr>stdout := stdout st1 @ [Newline]\<rparr>))"
| "streamLoop dest (SError e # es) isOpen tot st = (Some (Inl e), st)"

definition fallbackDownload :: "streamEvent list \<Rightarrow> path \<Rightarrow> jsnum \<Rightarrow> state \<Rightarrow> (error + unit) option \<times> state" where
  "fallbackDownload ses dest fileSize st = streamLoop dest ses False (orZero fileSize) st"

text \<open>The network as one transfer sees it.\<close>

record network =
  headSize :: "error + headers"
  headRange :: "error + headers"
  partEvents :: "event list"
  streamEvents :: "streamEvent list"

text \<open>The \<open>try\<close> block of lines 117 to 122: the values of \<open>fileSize\<close> and \<open>rangeSupported\<close> after it.\<close>

definition probe :: "network \<Rightarrow> state \<Rightarrow> jsnum \<times> bool \<times> state" where
  "probe net st =
     (case getFileSize (headSize net) of
        Inl e \<Rightarrow> (Undefined, False, st\<lparr>stdout := stdout st @ [Log HeadFailedFallback]\<rparr>)
      | Inr sz \<Rightarrow>
          (case supportsRange (headRange net) of
             Inl e \<Rightarrow> (sz, False, st\<lparr>stdout := stdout st @ [Log HeadFailedFallback]\<rparr>)
           | Inr r \<Rightarrow> (sz, r, st)))"

text \<open>
  The condition of line 123. Where it holds, \<open>fileSize\<close> is a number, and
  \<open>downloadWithResume\<close> hands that number to \<open>multiPartDownload\<close>.
\<close>

definition multiPartGuard :: "jsnum \<Rightarrow> bool \<Rightarrow> bool" where
  "multiPartGuard fileSize rangeSupported =
     (truthy fileSize \<and> rangeSupported \<and> greater fileSize (10 * 1024 * 1024))"

definition downloadWithResume :: "network \<Rightarrow> string \<Rightarrow> path \<Rightarrow> state \<Rightarrow> (error + unit) option \<times> state" where
  "downloadWithResume net url dest st =
     (let (fileSize, rangeSupported, st1) = probe net st
      in if multiPartGuard fileSize rangeSupported then
           (let st2 = st1\<lparr>stdout := stdout st1 @ [Log RangeMultiPart]\<rparr>;
                (r, es', st3) = multiPartDownload PARTS url dest (orZero fileSize) (partEvents net) st2
            in (r, st3))
         else fallbackDownload (streamEvents net) dest fileSize st1)"

subsection \<open>Notions used in the statements and proofs\<close>

text \<open>The path of the temporary file of segment \<open>i\<close>, as line 91 builds it.\<close>

definition partFile :: "path \<Rightarrow> nat \<Rightarrow> path" where
  "partFile dest i = dest @ ''.part'' @ decimal i"

text \<open>The range of segment \<open>i\<close>, as lines 85, 89 and 90 compute it.\<close>

definition segment :: "nat \<Rightarrow> int \<Rightarrow> nat \<Rightarrow> int \<times> int" where
  "segment parts fileSize i =
     (int i * ceilDiv fileSize parts,
      min ((int i + 1) * ceilDiv fileSize parts - 1) (fileSize - 1))"

text \<open>
  \<open>covers a rs b\<close>: the inclusive ranges \<open>rs\<close>, in their order, are non-empty, the
  first starts at \<open>a\<close>, each next one starts right after the one before ends, and the
  last ends at \<open>b - 1\<close>. So they cut \<open>[a, b)\<close> into consecutive pieces.
\<close>

fun covers :: "int \<Rightarrow> (int \<times> int) list \<Rightarrow> int \<Rightarrow> bool" where
  "covers a [] b = (a = b)"
| "covers a ((s, e) # rs) b = (s = a \<and> s \<le> e \<and> covers (e + 1) rs b)"

text \<open>The bytes of the object \<open>obj\<close> that lie in the inclusive range \<open>r\<close>.\<close>

definition slice :: "byte list \<Rightarrow> int \<times> int \<Rightarrow> byte list" where
  "slice obj r = take (nat (snd r - fst r + 1)) (drop (nat (fst r)) obj)"


text \<open>
  The streams of a running transfer with \<open>parts\<close> segments next to \<open>dest\<close>: one task,
  one flag and one promise per segment, each task writing its own part file; a file that
  was opened exists, and a resolved segment has opened its file.
\<close>

definition started :: "nat \<Rightarrow> path \<Rightarrow> state \<Rightarrow> bool" where
  "started parts dest st =
     (length (tasks st) = parts \<and> length (opened st) = parts \<and> length (promises st) = parts \<and>
      (\<forall>j<parts. taskDest (tasks st ! j) = partFile dest j) \<and>
      (\<forall>j<parts. opened st ! j \<longrightarrow> disk st (partFile dest j) \<noteq> None) \<and>
      (\<forall>j<parts. promises st ! j = Resolved \<longrightarrow> opened st ! j))"

text \<open>
  The state in which \<open>multiPartDownload\<close> starts to wait for its segments (\<open>st1\<close> in
  its definition).
\<close>

definition launched :: "nat \<Rightarrow> string \<Rightarrow> path \<Rightarrow> int \<Rightarrow> state \<Rightarrow> state" where
  "launched parts url dest fileSize st =
     st\<lparr>tasks := snd (startParts parts url dest fileSize),
        opened := replicate parts False,
        promises := replicate parts Pending,
        timer := Some \<lparr>cParts = parts, cPartFiles = map (partFile dest) [0..<parts],
                        cDownloaded = replicate parts 0, cTotal = fileSize\<rparr>\<rparr>"

text \<open>
  What the monitor's array \<open>d\<close> knows about the part files: for an opened file an
  entry that is at most the file's size, for a file not opened yet no file and the entry 0.
\<close>

definition tracked :: "nat \<Rightarrow> path \<Rightarrow> state \<Rightarrow> nat list \<Rightarrow> bool" where
  "tracked parts dest st d =
     (\<forall>j<parts.
        if opened st ! j
        then (\<exists>content. disk st (partFile dest j) = Some content \<and> d ! j \<le> length content)
        else disk st (partFile dest j) = None \<and> d ! j = 0)"


text \<open>A process that has started no download: an empty disk, no output, no timer.\<close>

definition idle :: state where
  "idle = \<lparr>disk = Map.empty, stdout = [], timer = None, tasks = [], opened = [], promises = []\<rparr>"

text \<open>
  Two schedules for a transfer in four parts. In the first, segment 2 fails while the
  others are in flight, and the timer is due once before and twice after. In the second,
  every segment delivers the 4,000,000 bytes of its range and the timer is due once,
  when two segments are complete.
\<close>

definition failingSchedule :: "event list" where
  "failingSchedule =
     [FileOpen 0, FileOpen 1, FileOpen 2, FileOpen 3, Data 0 ''ab'', Tick, Data 2 ''c'',
      Error 2 TimeoutError, Data 1 ''d'', Tick, Tick]"

definition halfWaySchedule :: "event list" where
  "halfWaySchedule =
     [FileOpen 0, FileOpen 1, FileOpen 2, FileOpen 3,
      Data 0 (replicate 4000000 (CHR ''a'')), Data 1 (replicate 4000000 (CHR ''b'')), Tick,
      Data 2 (replicate 4000000 (CHR ''c'')), Data 3 (replicate 4000000 (CHR ''d'')),
      Finish 0, Finish 1, Finish 2, Finish 3]"




section \<open>Properties\<close>

subsection \<open>Segment ranges\<close>

lemma partsLoop_eq:
  "partsLoop i parts url dest partSize fileSize pfs ts =
     (pfs @ map (partFile dest) [i..<parts],
      ts @ map (\<lambda>k. downloadPart url (partFile dest k) (int k * partSize)
                      (min ((int k + 1) * partSize - 1) (fileSize - 1)) k) [i..<parts])"
proof (induction i parts url dest partSize fileSize pfs ts rule: partsLoop.induct)
  case (1 i parts url dest partSize fileSize pfs ts)
  show ?case
  proof (cases "i < parts")
    case True
    then have "[i..<parts] = i # [i + 1..<parts]"
      by (simp add: upt_conv_Cons)
    with True "1" show ?thesis
      by (subst partsLoop.simps) (simp add: Let_def partFile_def)
  next
    case False
    then show ?thesis
      by (subst partsLoop.simps) simp
  qed
qed

lemma startParts_eq:
  "startParts parts url dest fileSize =
     (map (partFile dest) [0..<parts],
      map (\<lambda>k. downloadPart url (partFile dest k) (fst (segment parts fileSize k))
                  (snd (segment parts fileSize k)) k) [0..<parts])"
  by (simp add: startParts_def partsLoop_eq segment_def)

lemma segmentRanges_eq:
  "segmentRanges parts url dest fileSize = map (segment parts fileSize) [0..<parts]"
  by (simp add: segmentRanges_def startParts_eq List.map_filter_def downloadPart_def comp_def)

lemma ceilDiv_upper: "0 < p \<Longrightarrow> n \<le> ceilDiv n p * int p"
proof -
  assume p: "0 < p"
  have "(- n) div int p * int p \<le> - n"
    using p by (metis add.commute div_mult_mod_eq  le_add_same_cancel1 of_nat_0_less_iff pos_mod_sign)
  then show ?thesis by (simp add: ceilDiv_def)
qed

lemma covers_segments:
  assumes p: "0 < parts" and fit: "(int parts - 1) * ceilDiv n parts < n"
  shows "k < parts \<Longrightarrow> covers (int k * ceilDiv n parts) (map (segment parts n) [k..<parts]) n"
proof (induction "parts - k" arbitrary: k)
  case 0
  then show ?case by simp
next
  case (Suc d)
  let ?ps = "ceilDiv n parts"
  have up: "n \<le> ?ps * int parts" using p by (rule ceilDiv_upper)
  have pos: "0 < ?ps"
  proof -
    have "?ps * int parts - (int parts - 1) * ?ps = ?ps" by (simp add: algebra_simps)
    with up fit show ?thesis by linarith
  qed
  have split: "[k..<parts] = k # [Suc k..<parts]"
    using Suc.prems by (simp add: upt_conv_Cons)
  show ?case
  proof (cases "Suc k < parts")
    case True
    then have "int k + 1 \<le> int parts - 1" by simp
    then have "(int k + 1) * ?ps \<le> (int parts - 1) * ?ps"
      using pos by (simp add: mult_right_mono)
    with fit have lt: "(int k + 1) * ?ps - 1 \<le> n - 1" by linarith
    then have seg: "segment parts n k = (int k * ?ps, (int k + 1) * ?ps - 1)"
      by (simp add: segment_def min_def)
    have ne: "int k * ?ps \<le> (int k + 1) * ?ps - 1"
      using pos by (simp add: algebra_simps)
    have "parts - Suc k = d" using Suc.hyps(2) by simp
    then have "covers (int (Suc k) * ?ps) (map (segment parts n) [Suc k..<parts]) n"
      using Suc.hyps(1) [of "Suc k"] True by simp
    then show ?thesis
      using seg ne split by (simp add: algebra_simps)
  next
    case False
    with Suc.prems have last: "Suc k = parts" by simp
    then have k: "int k = int parts - 1" by auto
    have eq: "(int k + 1) * ?ps = ?ps * int parts" using k by (simp add: algebra_simps)
    have "n \<le> (int k + 1) * ?ps" using up by (simp only: eq)
    then have "n - 1 \<le> (int k + 1) * ?ps - 1" by linarith
    then have seg: "segment parts n k = (int k * ?ps, n - 1)"
      by (simp add: segment_def min_def)
    have "int k * ?ps \<le> n - 1" using fit k by simp
    then show ?thesis
      using seg split last by simp
  qed
qed

lemma covers_union:
  "covers a rs b \<Longrightarrow> a \<le> b \<and> (\<Union>(s, e)\<in>set rs. {s..e}) = {a..<b}"
proof (induction rs arbitrary: a)
  case Nil
  then show ?case by simp
next
  case (Cons r rs)
  obtain s e where r: "r = (s, e)" by (cases r)
  with Cons.prems have sa: "s = a" and se: "s \<le> e" and rest: "covers (e + 1) rs b"
    by simp_all
  from Cons.IH [OF rest] have le: "e + 1 \<le> b" and un: "(\<Union>(s, e)\<in>set rs. {s..e}) = {e + 1..<b}"
    by simp_all
  have "{s..e} \<union> {e + 1..<b} = {a..<b}"
    using sa se le by auto
  with un r sa se le show ?case by simp
qed

lemma covers_lower: "covers a rs b \<Longrightarrow> i < length rs \<Longrightarrow> a \<le> fst (rs ! i) \<and> fst (rs ! i) \<le> snd (rs ! i)"
proof (induction rs arbitrary: a i)
  case Nil
  then show ?case by simp
next
  case (Cons r rs)
  obtain s e where r: "r = (s, e)" by (cases r)
  show ?case
  proof (cases i)
    case 0
    with Cons.prems r show ?thesis by simp
  next
    case (Suc j)
    with Cons.prems r have "e + 1 \<le> fst (rs ! j) \<and> fst (rs ! j) \<le> snd (rs ! j)"
      using Cons.IH [of "e + 1" j] by simp
    with Cons.prems r Suc show ?thesis by simp
  qed
qed

lemma covers_ordered:
  "covers a rs b \<Longrightarrow> i < j \<Longrightarrow> j < length rs \<Longrightarrow> snd (rs ! i) < fst (rs ! j)"
proof (induction rs arbitrary: a i j)
  case Nil
  then show ?case by simp
next
  case (Cons r rs)
  obtain s e where r: "r = (s, e)" by (cases r)
  from Cons.prems obtain j' where j: "j = Suc j'" by (cases j) auto
  from Cons.prems r have rest: "covers (e + 1) rs b" by simp
  show ?case
  proof (cases i)
    case 0
    from covers_lower [OF rest, of j'] Cons.prems j have "e + 1 \<le> fst (rs ! j')" by simp
    with 0 j r show ?thesis by simp
  next
    case (Suc i')
    with Cons.prems j rest show ?thesis
      using Cons.IH [of "e + 1" i' j'] by simp
  qed
qed

lemma PARTS_fit: "12 < n \<Longrightarrow> (int PARTS - 1) * ceilDiv n PARTS < n"
  by (simp add: PARTS_def ceilDiv_def)

text \<open>
  C1 (amended). For at least one part and every size with
  \<open>(PARTS - 1) * ceil(totalSize / PARTS) < totalSize\<close> and
  \<open>totalSize + PARTS \<le> 2^53\<close>, the ranges of the segments are
  exactly \<open>PARTS\<close> non-empty consecutive ranges that start at 0 and end at
  \<open>totalSize - 1\<close>: their union is \<open>[0, totalSize)\<close>, an earlier range ends before a
  later one starts, every range but the last has \<open>ceil(totalSize / PARTS)\<close> bytes and the
  last one has what is left. By \<open>PARTS_fit\<close> the first condition holds for the four
  parts of the script at every size above 12, so at every size the 10 MiB guard lets
  through. The second condition is the range in which the doubles of lines 85 to 90
  are the integers of \<open>partsLoop\<close>: every number computed there is at most
  \<open>PARTS * partSize < totalSize + PARTS\<close>. Above it the source rounds (at
  \<open>2^53 + 2\<close> bytes the last range it requests ends at \<open>2^53\<close>, one byte short), so
  the statement is made for the sizes below only.
\<close>

theorem segment_ranges_partition:
  assumes "0 < parts" and "(int parts - 1) * ceilDiv fileSize parts < fileSize"
    and "fileSize + int parts \<le> 2 ^ 53"
  shows "length (segmentRanges parts url dest fileSize) = parts \<and>
         covers 0 (segmentRanges parts url dest fileSize) fileSize \<and>
         (\<Union>(s, e)\<in>set (segmentRanges parts url dest fileSize). {s..e}) = {0..<fileSize} \<and>
         (\<forall>i j. i < j \<and> j < parts \<longrightarrow>
            snd (segmentRanges parts url dest fileSize ! i) < fst (segmentRanges parts url dest fileSize ! j)) \<and>
         (\<forall>i. Suc i < parts \<longrightarrow>
            snd (segmentRanges parts url dest fileSize ! i) - fst (segmentRanges parts url dest fileSize ! i) + 1
              = ceilDiv fileSize parts) \<and>
         snd (segmentRanges parts url dest fileSize ! (parts - 1))
           - fst (segmentRanges parts url dest fileSize ! (parts - 1)) + 1
           = fileSize - (int parts - 1) * ceilDiv fileSize parts"
proof -
  let ?R = "segmentRanges parts url dest fileSize"
  let ?ps = "ceilDiv fileSize parts"
  have R: "?R = map (segment parts fileSize) [0..<parts]"
    by (rule segmentRanges_eq)
  have len: "length ?R = parts" by (simp add: R)
  have cov: "covers 0 ?R fileSize"
    using covers_segments [OF assms(1) assms(2), of 0] assms(1) by (simp add: R)
  have un: "(\<Union>(s, e)\<in>set ?R. {s..e}) = {0..<fileSize}"
    using covers_union [OF cov] by simp
  have ord: "\<forall>i j. i < j \<and> j < parts \<longrightarrow> snd (?R ! i) < fst (?R ! j)"
    using covers_ordered [OF cov] len by simp
  have up: "fileSize \<le> ?ps * int parts" using assms(1) by (rule ceilDiv_upper)
  have pos: "0 < ?ps"
  proof -
    have "?ps * int parts - (int parts - 1) * ?ps = ?ps" by (simp add: algebra_simps)
    with up assms(2) show ?thesis by linarith
  qed
  have inner: "\<forall>i. Suc i < parts \<longrightarrow> snd (?R ! i) - fst (?R ! i) + 1 = ?ps"
  proof (intro allI impI)
    fix i assume i: "Suc i < parts"
    then have "int i + 1 \<le> int parts - 1" by simp
    then have "(int i + 1) * ?ps \<le> (int parts - 1) * ?ps"
      using pos by (simp add: mult_right_mono)
    with assms(2) have "(int i + 1) * ?ps - 1 \<le> fileSize - 1" by linarith
    then have "segment parts fileSize i = (int i * ?ps, (int i + 1) * ?ps - 1)"
      by (simp add: segment_def min_def)
    with i show "snd (?R ! i) - fst (?R ! i) + 1 = ?ps"
      by (simp add: R algebra_simps)
  qed
  have final: "snd (?R ! (parts - 1)) - fst (?R ! (parts - 1)) + 1 = fileSize - (int parts - 1) * ?ps"
  proof -
    have k: "int (parts - 1) = int parts - 1" using assms(1) by auto
    have eq: "(int (parts - 1) + 1) * ?ps = ?ps * int parts" using k by (simp add: algebra_simps)
    have "fileSize \<le> (int (parts - 1) + 1) * ?ps" using up by (simp only: eq)
    then have "fileSize - 1 \<le> (int (parts - 1) + 1) * ?ps - 1" by linarith
    then have "segment parts fileSize (parts - 1) = (int (parts - 1) * ?ps, fileSize - 1)"
      by (simp add: segment_def min_def)
    then show ?thesis using assms(1) k by (simp add: R)
  qed
  from len cov un ord inner final show ?thesis by blast
qed

text \<open>The scenario of 16,000,000 bytes in four parts.\<close>

theorem segment_ranges_partition_witness:
  "(0::nat) < 4 \<and> (int 4 - 1) * ceilDiv 16000000 4 < 16000000 \<and>
   (16000000::int) + int 4 \<le> 2 ^ 53 \<and>
   segmentRanges 4 ''https://host/pkg.Appx'' ''downloads/pkg.Appx'' 16000000 =
     [(0, 3999999), (4000000, 7999999), (8000000, 11999999), (12000000, 15999999)] \<and>
   covers 0 (segmentRanges 4 ''https://host/pkg.Appx'' ''downloads/pkg.Appx'' 16000000) 16000000 \<and>
   (\<Union>(s, e)\<in>set (segmentRanges 4 ''https://host/pkg.Appx'' ''downloads/pkg.Appx'' 16000000). {s..e})
     = {0..<16000000}"
proof -
  have a: "(0::nat) < 4" by simp
  have b: "(int 4 - 1) * ceilDiv 16000000 4 < 16000000" by (simp add: ceilDiv_def)
  have c: "segmentRanges 4 ''https://host/pkg.Appx'' ''downloads/pkg.Appx'' 16000000 =
     [(0, 3999999), (4000000, 7999999), (8000000, 11999999), (12000000, 15999999)]"
    by (simp add: segmentRanges_eq segment_def ceilDiv_def upt_conv_Cons)
  have d: "(16000000::int) + int 4 \<le> 2 ^ 53" by simp
  from segment_ranges_partition [OF a b d, of "''https://host/pkg.Appx''" "''downloads/pkg.Appx''"] a b c d
  show ?thesis by blast
qed

text \<open>
  C1 as stated fails for small sizes: 5 bytes in four parts give a last range from 6 to 4,
  which starts after the file's end and does not follow the third range.
\<close>

theorem segment_ranges_small_counterexample:
  "segmentRanges PARTS ''https://host/pkg.Appx'' ''downloads/pkg.Appx'' 5 = [(0, 1), (2, 3), (4, 4), (6, 4)] \<and>
   \<not> covers 0 (segmentRanges PARTS ''https://host/pkg.Appx'' ''downloads/pkg.Appx'' 5) 5"
  by (simp add: segmentRanges_eq segment_def ceilDiv_def upt_conv_Cons PARTS_def)

subsection \<open>Part files and \<open>concatParts\<close>\<close>

lemma digitChar_code: "d < 10 \<Longrightarrow> of_char (digitChar d) = (48 + d :: nat)"
proof -
  assume "d < 10"
  then consider "d = 0" | "d = 1" | "d = 2" | "d = 3" | "d = 4"
    | "d = 5" | "d = 6" | "d = 7" | "d = 8" | "d = 9"
    by atomize_elim arith
  then show ?thesis
    by cases (simp_all add: digitChar_def)
qed

lemma digitChar_inj: "a < 10 \<Longrightarrow> b < 10 \<Longrightarrow> digitChar a = digitChar b \<Longrightarrow> a = b"
proof -
  assume a: "a < 10" and b: "b < 10" and eq: "digitChar a = digitChar b"
  from eq have "(of_char (digitChar a) :: nat) = of_char (digitChar b)" by simp
  with a b show "a = b" by (simp add: digitChar_code)
qed

lemma decimal_small: "n < 10 \<Longrightarrow> decimal n = [digitChar n]"
  by (subst decimal.simps) simp

lemma decimal_large: "\<not> n < 10 \<Longrightarrow> decimal n = decimal (n div 10) @ [digitChar (n mod 10)]"
  by (subst decimal.simps) simp

lemma decimal_nonempty: "decimal n \<noteq> []"
  by (cases "n < 10") (simp_all add: decimal_small decimal_large)

lemma decimal_inj: "decimal m = decimal n \<Longrightarrow> m = n"
proof (induction m arbitrary: n rule: decimal.induct)
  case (1 m)
  show ?case
  proof (cases "m < 10")
    case m: True
    show ?thesis
    proof (cases "n < 10")
      case True
      with m "1.prems" show ?thesis
        by (simp add: decimal_small digitChar_inj)
    next
      case False
      with m "1.prems" show ?thesis
        using decimal_nonempty [of "n div 10"]
        by (simp add: decimal_small decimal_large Cons_eq_append_conv)
    qed
  next
    case m: False
    show ?thesis
    proof (cases "n < 10")
      case True
      with m "1.prems" show ?thesis
        using decimal_nonempty [of "m div 10"]
        by (simp add: decimal_small decimal_large append_eq_Cons_conv)
    next
      case False
      with m "1.prems" have d: "decimal (m div 10) = decimal (n div 10)"
        and c: "digitChar (m mod 10) = digitChar (n mod 10)"
        by (simp_all add: decimal_large)
      from "1.IH" [OF m d] have q: "m div 10 = n div 10" .
      from c have r: "m mod 10 = n mod 10"
        by (rule digitChar_inj [rotated 2]) simp_all
      from q r show ?thesis
        by (metis div_mult_mod_eq)
    qed
  qed
qed

lemma partFile_inj: "partFile dest i = partFile dest j \<Longrightarrow> i = j"
  by (simp add: partFile_def decimal_inj)

lemma partFile_not_dest: "partFile dest i \<noteq> dest"
  by (simp add: partFile_def)

lemma distinct_partFiles: "distinct (map (partFile dest) [i..<parts])"
  by (simp add: distinct_map inj_on_def partFile_inj)

lemma concatLoop_append:
  "concatLoop dest (xs @ ys) dsk =
     (case concatLoop dest xs dsk of
        (Inl e, d) \<Rightarrow> (Inl e, d)
      | (Inr u, d) \<Rightarrow> concatLoop dest ys d)"
  by (induction xs arbitrary: dsk) (simp_all add: Let_def split: option.splits)

lemma concatLoop_complete:
  assumes "distinct ps" and "dest \<notin> set ps" and "\<forall>p\<in>set ps. dsk p \<noteq> None"
    and "dsk dest = Some w"
  shows "concatLoop dest ps dsk =
           (Inr (),
            \<lambda>p. if p = dest then Some (w @ concat (map (\<lambda>q. the (dsk q)) ps))
                 else if p \<in> set ps then None else dsk p)"
  using assms
proof (induction ps arbitrary: dsk w)
  case Nil
  then show ?case by (auto simp: fun_eq_iff)
next
  case (Cons q qs)
  from Cons.prems obtain c where c: "dsk q = Some c" by auto
  let ?d2 = "(dsk(dest \<mapsto> w @ c))(q := None)"
  have step: "concatLoop dest (q # qs) dsk = concatLoop dest qs ?d2"
    using c Cons.prems(4) by (simp add: Let_def)
  have pre: "distinct qs" "dest \<notin> set qs" "\<forall>p\<in>set qs. ?d2 p \<noteq> None"
    "?d2 dest = Some (w @ c)"
    using Cons.prems by auto
  have same: "map (\<lambda>p. the (?d2 p)) qs = map (\<lambda>p. the (dsk p)) qs"
    using Cons.prems by auto
  show ?case
    unfolding step Cons.IH [OF pre] same
    using Cons.prems c by (auto simp: fun_eq_iff)
qed

lemma ceilDiv_nonneg: "0 \<le> n \<Longrightarrow> 0 \<le> ceilDiv n p"
proof -
  assume "0 \<le> n"
  then have "(- n) div int p \<le> 0"
    by (cases "p = 0") (simp_all add: div_nonpos_pos_le0)
  then show ?thesis by (simp add: ceilDiv_def)
qed

lemma slice_segment:
  "slice obj (segment parts (int (length obj)) i) =
     take (nat (ceilDiv (int (length obj)) parts)) (drop (i * nat (ceilDiv (int (length obj)) parts)) obj)"
proof -
  let ?n = "int (length obj)"
  let ?ps = "ceilDiv ?n parts"
  let ?m = "nat ?ps"
  have ps: "0 \<le> ?ps" by (rule ceilDiv_nonneg) simp
  have st: "nat (int i * ?ps) = i * ?m"
    by (simp add: nat_mult_distrib)
  have "min ((int i + 1) * ?ps - 1) (?n - 1) - int i * ?ps + 1 = min ?ps (?n - int i * ?ps)"
    by (simp add: min_def algebra_simps)
  moreover have "nat (min ?ps (?n - int i * ?ps)) = min ?m (length obj - i * ?m)"
    using ps st by (simp add: min_def nat_diff_distrib' nat_le_iff)
  ultimately have "slice obj (segment parts ?n i) = take (min ?m (length obj - i * ?m)) (drop (i * ?m) obj)"
    by (simp add: slice_def segment_def st)
  also have "\<dots> = take ?m (drop (i * ?m) obj)"
    by (simp add: min_def)
  finally show ?thesis .
qed

lemma concat_take_drop:
  "concat (map (\<lambda>i. take m (drop (i * m) xs)) [0..<k]) = take (k * m) xs"
proof (induction k)
  case 0
  then show ?case by simp
next
  case (Suc k)
  have "take (k * m + m) xs = take (k * m) xs @ take m (drop (k * m) xs)"
    by (rule take_add)
  with Suc show ?case by (simp add: add.commute)
qed

lemma dest_not_partFile: "dest \<noteq> partFile dest i"
  by (simp add: partFile_def)

lemma concat_prefix:
  "concat (map (slice obj) (map (segment parts (int (length obj))) [0..<k])) =
     take (nat (int k * ceilDiv (int (length obj)) parts)) obj"
proof -
  have "0 \<le> ceilDiv (int (length obj)) parts" by (rule ceilDiv_nonneg) simp
  then have "nat (int k * ceilDiv (int (length obj)) parts) = k * nat (ceilDiv (int (length obj)) parts)"
    by (simp add: nat_mult_distrib)
  then show ?thesis
    by (simp add: comp_def slice_segment concat_take_drop)
qed

text \<open>
  C3. Let the temporary file of every segment hold the bytes of the segment's range of
  an object \<open>obj\<close>. Then \<open>concatParts\<close>, called with the part files that
  \<open>multiPartDownload\<close> lists, succeeds, and after any number \<open>k\<close> of its loop
  iterations the destination holds the first \<open>k\<close> segments' bytes in index order (a
  prefix of \<open>obj\<close>), the first \<open>k\<close> part files are deleted and the later ones are
  untouched; the rest of the run continues from that disk. At the end the destination is
  \<open>obj\<close>, no part file exists, and no other path has changed.
\<close>

theorem concatParts_reassembles:
  assumes p: "0 < parts"
    and held: "\<forall>i<parts. dsk (partFile dest i) = Some (slice obj (segment parts (int (length obj)) i))"
  shows "(\<forall>k\<le>parts. \<exists>dk.
            concatParts dest (take k (fst (startParts parts url dest (int (length obj))))) dsk = (Inr (), dk) \<and>
            concatParts dest (fst (startParts parts url dest (int (length obj)))) dsk
              = concatLoop dest (drop k (fst (startParts parts url dest (int (length obj))))) dk \<and>
            dk dest = Some (take (nat (int k * ceilDiv (int (length obj)) parts)) obj) \<and>
            (\<forall>i<k. dk (partFile dest i) = None) \<and>
            (\<forall>i. k \<le> i \<and> i < parts \<longrightarrow> dk (partFile dest i) = dsk (partFile dest i))) \<and>
         (\<exists>dsk'.
            concatParts dest (fst (startParts parts url dest (int (length obj)))) dsk = (Inr (), dsk') \<and>
            dsk' dest = Some obj \<and>
            (\<forall>i<parts. dsk' (partFile dest i) = None) \<and>
            (\<forall>q. q \<noteq> dest \<and> (\<forall>i<parts. q \<noteq> partFile dest i) \<longrightarrow> dsk' q = dsk q))"
proof -
  let ?n = "int (length obj)"
  let ?pfs = "fst (startParts parts url dest ?n)"
  let ?d0 = "dsk(dest \<mapsto> [])"
  have pfs: "?pfs = map (partFile dest) [0..<parts]"
    by (simp add: startParts_eq)
  have prefix: "\<And>k. k \<le> parts \<Longrightarrow>
     concatLoop dest (take k ?pfs) ?d0 =
       (Inr (), \<lambda>q. if q = dest then Some (take (nat (int k * ceilDiv ?n parts)) obj)
                     else if q \<in> partFile dest ` {..<k} then None else dsk q)"
  proof -
    fix k assume k: "k \<le> parts"
    have tk: "take k ?pfs = map (partFile dest) [0..<k]"
      using k by (simp add: pfs take_map)
    have ex: "\<forall>q\<in>set (map (partFile dest) [0..<k]). ?d0 q \<noteq> None"
      using held k by (auto simp: partFile_not_dest)
    have nd: "dest \<notin> set (map (partFile dest) [0..<k])"
      by (auto simp: dest_not_partFile)
    have cont: "map (\<lambda>q. the (?d0 q)) (map (partFile dest) [0..<k])
                  = map (slice obj) (map (segment parts ?n) [0..<k])"
      using held k by (simp add: partFile_not_dest)
    have st: "set (map (partFile dest) [0..<k]) = partFile dest ` {..<k}"
      by (simp add: atLeast0LessThan)
    have "concatLoop dest (map (partFile dest) [0..<k]) ?d0 =
       (Inr (), \<lambda>q. if q = dest
                     then Some ([] @ concat (map (\<lambda>q. the (?d0 q)) (map (partFile dest) [0..<k])))
                     else if q \<in> set (map (partFile dest) [0..<k]) then None else ?d0 q)"
      by (rule concatLoop_complete [OF distinct_partFiles nd ex]) simp
    also have "(\<lambda>q. if q = dest
                     then Some ([] @ concat (map (\<lambda>q. the (?d0 q)) (map (partFile dest) [0..<k])))
                     else if q \<in> set (map (partFile dest) [0..<k]) then None else ?d0 q)
        = (\<lambda>q. if q = dest then Some (take (nat (int k * ceilDiv ?n parts)) obj)
                     else if q \<in> partFile dest ` {..<k} then None else dsk q)"
      unfolding cont st concat_prefix by (simp add: fun_eq_iff)
    finally show "concatLoop dest (take k ?pfs) ?d0 =
       (Inr (), \<lambda>q. if q = dest then Some (take (nat (int k * ceilDiv ?n parts)) obj)
                     else if q \<in> partFile dest ` {..<k} then None else dsk q)"
      unfolding tk .
  qed
  have steps: "\<forall>k\<le>parts. \<exists>dk.
            concatParts dest (take k ?pfs) dsk = (Inr (), dk) \<and>
            concatParts dest ?pfs dsk = concatLoop dest (drop k ?pfs) dk \<and>
            dk dest = Some (take (nat (int k * ceilDiv ?n parts)) obj) \<and>
            (\<forall>i<k. dk (partFile dest i) = None) \<and>
            (\<forall>i. k \<le> i \<and> i < parts \<longrightarrow> dk (partFile dest i) = dsk (partFile dest i))"
  proof (intro allI impI)
    fix k assume k: "k \<le> parts"
    let ?dk = "\<lambda>q. if q = dest then Some (take (nat (int k * ceilDiv ?n parts)) obj)
                     else if q \<in> partFile dest ` {..<k} then None else dsk q"
    have a: "concatParts dest (take k ?pfs) dsk = (Inr (), ?dk)"
      unfolding concatParts_def by (rule prefix [OF k])
    have "concatLoop dest (take k ?pfs @ drop k ?pfs) ?d0 = concatLoop dest (drop k ?pfs) ?dk"
      unfolding concatLoop_append prefix [OF k] by simp
    then have b: "concatParts dest ?pfs dsk = concatLoop dest (drop k ?pfs) ?dk"
      by (simp add: concatParts_def)
    have c: "\<forall>i<k. ?dk (partFile dest i) = None"
      by (simp add: partFile_not_dest)
    have d: "\<forall>i. k \<le> i \<and> i < parts \<longrightarrow> ?dk (partFile dest i) = dsk (partFile dest i)"
      by (auto simp: partFile_not_dest dest: partFile_inj)
    from a b c d show "\<exists>dk.
            concatParts dest (take k ?pfs) dsk = (Inr (), dk) \<and>
            concatParts dest ?pfs dsk = concatLoop dest (drop k ?pfs) dk \<and>
            dk dest = Some (take (nat (int k * ceilDiv ?n parts)) obj) \<and>
            (\<forall>i<k. dk (partFile dest i) = None) \<and>
            (\<forall>i. k \<le> i \<and> i < parts \<longrightarrow> dk (partFile dest i) = dsk (partFile dest i))"
      by (intro exI [of _ ?dk] conjI) simp_all
  qed
  let ?df = "\<lambda>q. if q = dest then Some (take (nat (int parts * ceilDiv ?n parts)) obj)
                     else if q \<in> partFile dest ` {..<parts} then None else dsk q"
  have whole: "concatParts dest ?pfs dsk = (Inr (), ?df)"
    using prefix [of parts] by (simp add: concatParts_def pfs)
  have full: "take (nat (int parts * ceilDiv ?n parts)) obj = obj"
    using ceilDiv_upper [OF p, of ?n]
    by (simp add: mult.commute le_nat_iff)
  have final: "\<exists>dsk'.
            concatParts dest ?pfs dsk = (Inr (), dsk') \<and>
            dsk' dest = Some obj \<and>
            (\<forall>i<parts. dsk' (partFile dest i) = None) \<and>
            (\<forall>q. q \<noteq> dest \<and> (\<forall>i<parts. q \<noteq> partFile dest i) \<longrightarrow> dsk' q = dsk q)"
    by (intro exI [of _ ?df] conjI whole) (auto simp: full partFile_not_dest)
  from steps final show ?thesis by (rule conjI)
qed

text \<open>Thirteen bytes in four parts.\<close>

theorem concatParts_reassembles_witness:
  "(0::nat) < 4 \<and>
   fst (concatParts ''pkg.Appx'' (fst (startParts 4 ''https://host/pkg'' ''pkg.Appx'' (int (length ''ABCDEFGHIJKLM''))))
     [''pkg.Appx.part0'' \<mapsto> ''ABCD'', ''pkg.Appx.part1'' \<mapsto> ''EFGH'',
      ''pkg.Appx.part2'' \<mapsto> ''IJKL'', ''pkg.Appx.part3'' \<mapsto> ''M'']) = Inr () \<and>
   snd (concatParts ''pkg.Appx'' (fst (startParts 4 ''https://host/pkg'' ''pkg.Appx'' (int (length ''ABCDEFGHIJKLM''))))
     [''pkg.Appx.part0'' \<mapsto> ''ABCD'', ''pkg.Appx.part1'' \<mapsto> ''EFGH'',
      ''pkg.Appx.part2'' \<mapsto> ''IJKL'', ''pkg.Appx.part3'' \<mapsto> ''M'']) ''pkg.Appx'' = Some ''ABCDEFGHIJKLM'' \<and>
   snd (concatParts ''pkg.Appx'' (fst (startParts 4 ''https://host/pkg'' ''pkg.Appx'' (int (length ''ABCDEFGHIJKLM''))))
     [''pkg.Appx.part0'' \<mapsto> ''ABCD'', ''pkg.Appx.part1'' \<mapsto> ''EFGH'',
      ''pkg.Appx.part2'' \<mapsto> ''IJKL'', ''pkg.Appx.part3'' \<mapsto> ''M'']) ''pkg.Appx.part2'' = None"
proof -
  let ?obj = "''ABCDEFGHIJKLM''"
  let ?dsk = "[''pkg.Appx.part0'' \<mapsto> ''ABCD'', ''pkg.Appx.part1'' \<mapsto> ''EFGH'',
      ''pkg.Appx.part2'' \<mapsto> ''IJKL'', ''pkg.Appx.part3'' \<mapsto> ''M'']"
  have a: "(0::nat) < 4" by simp
  have c: "\<forall>i<4. ?dsk (partFile ''pkg.Appx'' i) = Some (slice ?obj (segment 4 (int (length ?obj)) i))"
  proof (intro allI impI)
    fix i :: nat
    assume "i < 4"
    then consider "i = 0" | "i = 1" | "i = 2" | "i = 3"
      by atomize_elim arith
    then show "?dsk (partFile ''pkg.Appx'' i) = Some (slice ?obj (segment 4 (int (length ?obj)) i))"
      by cases (simp_all add: partFile_def decimal_small digitChar_def slice_def segment_def ceilDiv_def)
  qed
  have pf: "partFile ''pkg.Appx'' 2 = ''pkg.Appx.part2''"
    by (simp add: partFile_def decimal_small digitChar_def)
  from concatParts_reassembles [OF a c, of "''https://host/pkg''"]
  obtain dsk' where r: "concatParts ''pkg.Appx''
        (fst (startParts 4 ''https://host/pkg'' ''pkg.Appx'' (int (length ?obj)))) ?dsk = (Inr (), dsk')"
    and d: "dsk' ''pkg.Appx'' = Some ?obj"
    and n: "\<forall>i<4. dsk' (partFile ''pkg.Appx'' i) = None"
    by (elim conjE exE)
  from n have "dsk' (partFile ''pkg.Appx'' 2) = None" by simp
  then have n2: "dsk' ''pkg.Appx.part2'' = None" by (simp only: pf)
  show ?thesis
    unfolding r fst_conv snd_conv using a d n2 by (intro conjI) simp_all
qed

subsection \<open>The progress monitor's tick\<close>





subsection \<open>Running segments: failure, the monitor and the progress lines\<close>

lemma tick_fst: "cParts (fst (tick c dsk)) = cParts c"
  by (simp add: tick_def split: prod.splits)

lemma dispatch_tasks [simp]: "tasks (dispatch ev st) = tasks st"
  by (cases ev) (simp_all add: openFile_def Let_def split: option.splits prod.splits)

lemma dispatch_lengths [simp]:
  "length (opened (dispatch ev st)) = length (opened st)"
  "length (promises (dispatch ev st)) = length (promises st)"
  by (cases ev; simp add: openFile_def Let_def split: option.splits prod.splits)+

lemma dispatch_keeps_files: "disk st p \<noteq> None \<Longrightarrow> disk (dispatch ev st) p \<noteq> None"
  by (cases ev) (auto simp: openFile_def appendFile_def Let_def split: option.splits prod.splits)

lemma dispatch_frame:
  "\<forall>j<length (tasks st). taskDest (tasks st ! j) \<noteq> p \<Longrightarrow> disk (dispatch ev st) p = disk st p"
  by (cases ev) (auto simp: openFile_def appendFile_def live_def Let_def split: option.splits prod.splits)

lemma eventLoop_tasks [simp]: "tasks (eventLoop es st) = tasks st"
  by (induction es arbitrary: st) simp_all

lemma eventLoop_keeps_files: "disk st p \<noteq> None \<Longrightarrow> disk (eventLoop es st) p \<noteq> None"
proof (induction es arbitrary: st)
  case Nil
  then show ?case by simp
next
  case (Cons ev es)
  from Cons.prems have "disk (dispatch ev st) p \<noteq> None"
    by (rule dispatch_keeps_files)
  then have "disk (eventLoop es (dispatch ev st)) p \<noteq> None"
    by (rule Cons.IH)
  then show ?case by simp
qed

lemma eventLoop_frame:
  "\<forall>j<length (tasks st). taskDest (tasks st ! j) \<noteq> p \<Longrightarrow> disk (eventLoop es st) p = disk st p"
  by (induction es arbitrary: st) (simp_all add: dispatch_frame)

lemma eventLoop_append: "eventLoop (xs @ ys) st = eventLoop ys (eventLoop xs st)"
  by (induction xs arbitrary: st) simp_all

lemma started_dispatch: "started parts dest st \<Longrightarrow> started parts dest (dispatch ev st)"
proof (cases ev)
  case Tick
  assume "started parts dest st"
  with Tick show ?thesis
    by (auto simp: started_def split: option.splits prod.splits)
next
  case (FileOpen i)
  assume "started parts dest st"
  with FileOpen show ?thesis
    by (auto simp: started_def openFile_def live_def nth_list_update)
next
  case (Data i bs)
  assume "started parts dest st"
  with Data show ?thesis
    by (auto simp: started_def openFile_def live_def appendFile_def nth_list_update Let_def)
next
  case (Finish i)
  assume "started parts dest st"
  with Finish show ?thesis
    by (auto simp: started_def openFile_def live_def nth_list_update Let_def)
next
  case (Error i e)
  assume "started parts dest st"
  with Error show ?thesis
    by (auto simp: started_def live_def nth_list_update)
qed

lemma started_eventLoop: "started parts dest st \<Longrightarrow> started parts dest (eventLoop es st)"
  by (induction es arbitrary: st) (simp_all add: started_dispatch)

lemma firstRejected_None_iff:
  "firstRejected ps = None \<longleftrightarrow> (\<forall>p\<in>set ps. \<forall>e. p \<noteq> Rejected e)"
  by (induction ps rule: firstRejected.induct) auto

lemma firstRejected_update:
  "firstRejected ps = None \<Longrightarrow> i < length ps \<Longrightarrow> firstRejected (ps[i := Rejected e]) = Some e"
proof (induction ps arbitrary: i)
  case Nil
  then show ?case by simp
next
  case (Cons p ps)
  show ?case
  proof (cases i)
    case 0
    then show ?thesis by simp
  next
    case (Suc j)
    from Cons.prems(1) have rest: "firstRejected ps = None" and head: "p = Pending \<or> p = Resolved"
      by (cases p; simp)+
    from Cons.prems(2) Suc have "j < length ps" by simp
    from Cons.IH [OF rest this] head Suc show ?thesis by auto
  qed
qed

lemma dispatch_no_reject:
  assumes "firstRejected (promises st) = None" and "\<forall>j e. ev \<noteq> Error j e"
  shows "firstRejected (promises (dispatch ev st)) = None"
proof (cases ev)
  case (Finish i)
  have "\<forall>p\<in>set ((promises st)[i := Resolved]). \<forall>e. p \<noteq> Rejected e"
    using assms(1) by (auto simp: firstRejected_None_iff dest!: set_update_subset_insert [THEN subsetD])
  with Finish assms(1) show ?thesis
    by (simp add: openFile_def Let_def firstRejected_None_iff)
next
  case (Error i e)
  with assms(2) show ?thesis by simp
qed (use assms(1) in \<open>simp_all add: openFile_def Let_def split: option.splits prod.splits\<close>)

lemma dispatch_pending:
  assumes "promises st ! i = Pending" and "ev \<noteq> Finish i" and "\<forall>e. ev \<noteq> Error i e"
  shows "promises (dispatch ev st) ! i = Pending"
  using assms
  by (cases ev) (auto simp: openFile_def Let_def nth_list_update split: option.splits prod.splits)

lemma not_all_resolved:
  "i < length ps \<Longrightarrow> ps ! i = Pending \<Longrightarrow> \<not> list_all (\<lambda>p. p = Resolved) ps"
  by (auto simp: list_all_length)

lemma awaitAll_failure:
  assumes "firstRejected (promises st) = None"
    and "i < length (tasks st)" and "i < length (promises st)" and "promises st ! i = Pending"
    and "\<forall>j e'. Error j e' \<notin> set pre" and "Finish i \<notin> set pre"
  shows "awaitAll (pre @ Error i e # post) st =
           (Some (Inl e), post,
            (eventLoop pre st)\<lparr>promises := (promises (eventLoop pre st))[i := Rejected e]\<rparr>)"
  using assms
proof (induction pre arbitrary: st)
  case Nil
  have l: "live i st" using Nil.prems by (simp add: live_def)
  have r: "firstRejected ((promises st)[i := Rejected e]) = Some e"
    using Nil.prems by (simp add: firstRejected_update)
  have "awaitAll (Error i e # post) st = awaitAll post (dispatch (Error i e) st)"
    using Nil.prems not_all_resolved [of i "promises st"]
    by (subst awaitAll.simps) simp
  also have "\<dots> = (Some (Inl e), post, st\<lparr>promises := (promises st)[i := Rejected e]\<rparr>)"
    using l r by (subst awaitAll.simps) simp
  finally show ?case by simp
next
  case (Cons ev pre)
  have step: "awaitAll ((ev # pre) @ Error i e # post) st = awaitAll (pre @ Error i e # post) (dispatch ev st)"
    using Cons.prems not_all_resolved [of i "promises st"]
    by (subst awaitAll.simps) simp
  have a: "firstRejected (promises (dispatch ev st)) = None"
    using Cons.prems by (intro dispatch_no_reject) auto
  have b: "promises (dispatch ev st) ! i = Pending"
    using Cons.prems by (intro dispatch_pending) auto
  show ?case
    unfolding step
    using Cons.IH [OF a _ _ b] Cons.prems by simp
qed

lemma update_True_mono: "j < length bs \<Longrightarrow> bs ! j \<Longrightarrow> bs[i := True] ! j"
  by (cases "i = j") simp_all

lemma dispatch_opened_mono:
  "j < length (opened st) \<Longrightarrow> opened st ! j \<Longrightarrow> opened (dispatch ev st) ! j"
  by (cases ev) (auto simp: openFile_def Let_def update_True_mono split: option.splits prod.splits)

lemma eventLoop_opened_mono:
  "j < length (opened st) \<Longrightarrow> opened st ! j \<Longrightarrow> opened (eventLoop es st) ! j"
  by (induction es arbitrary: st) (simp_all add: dispatch_opened_mono)

lemma dispatch_opens:
  assumes st: "started parts dest st" and nr: "firstRejected (promises st) = None" and j: "j < parts"
    and ev: "ev = FileOpen j \<or> ev = Data j bs"
  shows "opened (dispatch ev st) ! j"
proof -
  have len: "length (tasks st) = parts" "length (opened st) = parts" "length (promises st) = parts"
    using st by (simp_all add: started_def)
  have "promises st ! j \<in> set (promises st)" using len j by simp
  with nr have "promises st ! j = Pending \<or> promises st ! j = Resolved"
    by (cases "promises st ! j") (auto simp: firstRejected_None_iff)
  then show ?thesis
  proof
    assume "promises st ! j = Pending"
    then have "live j st" using len j by (simp add: live_def)
    with ev len j show ?thesis
      by (auto simp: openFile_def Let_def)
  next
    assume r: "promises st ! j = Resolved"
    then have "opened st ! j" using st j by (simp add: started_def)
    then show ?thesis using len j by (simp add: dispatch_opened_mono)
  qed
qed

lemma eventLoop_opens:
  assumes "started parts dest st" and "firstRejected (promises st) = None" and "j < parts"
    and "\<forall>k e'. Error k e' \<notin> set pre"
    and "FileOpen j \<in> set pre \<or> (\<exists>bs. Data j bs \<in> set pre)"
  shows "opened (eventLoop pre st) ! j"
  using assms
proof (induction pre arbitrary: st)
  case Nil
  then show ?case by simp
next
  case (Cons ev pre)
  have s': "started parts dest (dispatch ev st)"
    using Cons.prems(1) by (rule started_dispatch)
  have n': "firstRejected (promises (dispatch ev st)) = None"
    using Cons.prems by (intro dispatch_no_reject) auto
  have e': "\<forall>k e'. Error k e' \<notin> set pre" using Cons.prems by auto
  show ?case
  proof (cases "ev = FileOpen j \<or> (\<exists>bs. ev = Data j bs)")
    case True
    then obtain bs where "ev = FileOpen j \<or> ev = Data j bs" by auto
    from dispatch_opens [OF Cons.prems(1,2,3) this]
    have "opened (dispatch ev st) ! j" .
    moreover have "j < length (opened (dispatch ev st))"
      using s' Cons.prems(3) by (simp add: started_def)
    ultimately show ?thesis
      by (simp add: eventLoop_opened_mono)
  next
    case False
    with Cons.prems(5) have "FileOpen j \<in> set pre \<or> (\<exists>bs. Data j bs \<in> set pre)" by auto
    from Cons.IH [OF s' n' Cons.prems(3) e' this] show ?thesis by simp
  qed
qed

lemma multiPartDownload_eq:
  "multiPartDownload parts url dest fileSize es st =
     (case awaitAll es (launched parts url dest fileSize st) of
        (None, es', st2) \<Rightarrow> (None, es', st2)
      | (Some (Inl e), es', st2) \<Rightarrow> (Some (Inl e), es', st2)
      | (Some (Inr u), es', st2) \<Rightarrow>
          (let st3 = st2\<lparr>timer := None, stdout := stdout st2 @ [Newline]\<rparr>;
               (r, disk') = concatParts dest (map (partFile dest) [0..<parts]) (disk st3)
           in (Some r, es', st3\<lparr>disk := disk'\<rparr>)))"
  by (simp add: multiPartDownload_def startParts_eq launched_def)

lemma launched_fields [simp]:
  "disk (launched parts url dest fileSize st) = disk st"
  "stdout (launched parts url dest fileSize st) = stdout st"
  "length (tasks (launched parts url dest fileSize st)) = parts"
  "promises (launched parts url dest fileSize st) = replicate parts Pending"
  "opened (launched parts url dest fileSize st) = replicate parts False"
  by (simp_all add: launched_def startParts_eq)

lemma launched_dest [simp]:
  "j < parts \<Longrightarrow> taskDest (tasks (launched parts url dest fileSize st) ! j) = partFile dest j"
  by (simp add: launched_def startParts_eq downloadPart_def)

lemma started_launched: "started parts dest (launched parts url dest fileSize st)"
  by (simp add: started_def)

lemma firstRejected_replicate [simp]: "firstRejected (replicate n Pending) = None"
  by (simp add: firstRejected_None_iff)

text \<open>
  C2 (amended). Let segment \<open>i\<close> fail while it is unfinished, with no error of any
  stream before. Then \<open>multiPartDownload\<close> throws the segment's error with the later
  events still to come, and the destination path is as it was before the transfer: the
  aggregator has not run. Nothing is cleaned up: every part file whose stream had opened
  it or written to it exists when the error is thrown and still exists after the
  remaining events, and no file that existed before the transfer is gone.
\<close>

theorem segment_failure_keeps_part_files:
  assumes i: "i < parts" and noerr: "\<forall>j e'. Error j e' \<notin> set pre" and nofin: "Finish i \<notin> set pre"
  shows "\<exists>st'. multiPartDownload parts url dest fileSize (pre @ Error i e # post) st
                 = (Some (Inl e), post, st') \<and>
           disk st' dest = disk st dest \<and>
           disk (eventLoop post st') dest = disk st dest \<and>
           (\<forall>j<parts. FileOpen j \<in> set pre \<or> (\<exists>bs. Data j bs \<in> set pre) \<longrightarrow>
              disk st' (partFile dest j) \<noteq> None \<and>
              disk (eventLoop post st') (partFile dest j) \<noteq> None) \<and>
           (\<forall>p. disk st p \<noteq> None \<longrightarrow> disk st' p \<noteq> None)"
proof -
  let ?s1 = "launched parts url dest fileSize st"
  let ?s2 = "eventLoop pre ?s1"
  let ?st' = "?s2\<lparr>promises := (promises ?s2)[i := Rejected e]\<rparr>"
  have aw: "awaitAll (pre @ Error i e # post) ?s1 = (Some (Inl e), post, ?st')"
    using i noerr nofin by (intro awaitAll_failure) simp_all
  have res: "multiPartDownload parts url dest fileSize (pre @ Error i e # post) st
                 = (Some (Inl e), post, ?st')"
    by (simp add: multiPartDownload_eq aw)
  have nd: "\<forall>j<length (tasks ?s1). taskDest (tasks ?s1 ! j) \<noteq> dest"
    by (simp add: partFile_not_dest)
  have d1: "disk ?st' dest = disk st dest"
    using eventLoop_frame [OF nd, of pre] by simp
  have nd': "\<forall>j<length (tasks ?st'). taskDest (tasks ?st' ! j) \<noteq> dest"
    by (simp add: partFile_not_dest)
  have d2: "disk (eventLoop post ?st') dest = disk st dest"
    using eventLoop_frame [OF nd', of post] d1 by simp
  have st2: "started parts dest ?s2"
    by (intro started_eventLoop started_launched)
  have parts: "\<forall>j<parts. FileOpen j \<in> set pre \<or> (\<exists>bs. Data j bs \<in> set pre) \<longrightarrow>
              disk ?st' (partFile dest j) \<noteq> None \<and>
              disk (eventLoop post ?st') (partFile dest j) \<noteq> None"
  proof (intro allI impI)
    fix j assume j: "j < parts" and ev: "FileOpen j \<in> set pre \<or> (\<exists>bs. Data j bs \<in> set pre)"
    have "opened ?s2 ! j"
      using started_launched _ j noerr ev by (rule eventLoop_opens) simp
    with st2 j have "disk ?s2 (partFile dest j) \<noteq> None"
      by (simp add: started_def)
    then have a: "disk ?st' (partFile dest j) \<noteq> None" by simp
    from a have "disk (eventLoop post ?st') (partFile dest j) \<noteq> None"
      by (rule eventLoop_keeps_files)
    with a show "disk ?st' (partFile dest j) \<noteq> None \<and>
              disk (eventLoop post ?st') (partFile dest j) \<noteq> None" ..
  qed
  have keep: "\<forall>p. disk st p \<noteq> None \<longrightarrow> disk ?st' p \<noteq> None"
  proof (intro allI impI)
    fix p assume "disk st p \<noteq> None"
    then have "disk ?s1 p \<noteq> None" by simp
    then have "disk ?s2 p \<noteq> None" by (rule eventLoop_keeps_files)
    then show "disk ?st' p \<noteq> None" by simp
  qed
  from res d1 d2 parts keep show ?thesis by blast
qed

text \<open>
  Segment 2 of 4 fails after all four files were opened.
\<close>

theorem segment_failure_keeps_part_files_witness:
  "(2::nat) < 4 \<and>
   Finish 2 \<notin> set [FileOpen 0, FileOpen 1, FileOpen 2, FileOpen 3, Data 0 ''ab'', Data 2 ''c''] \<and>
   fst (multiPartDownload 4 ''https://host/pkg'' ''pkg.Appx'' 16000000
          ([FileOpen 0, FileOpen 1, FileOpen 2, FileOpen 3, Data 0 ''ab'', Data 2 ''c'']
             @ Error 2 TimeoutError # [Data 1 ''d'', Tick])
          \<lparr>disk = Map.empty, stdout = [], timer = None, tasks = [], opened = [], promises = []\<rparr>)
     = Some (Inl TimeoutError) \<and>
   disk (snd (snd (multiPartDownload 4 ''https://host/pkg'' ''pkg.Appx'' 16000000
          ([FileOpen 0, FileOpen 1, FileOpen 2, FileOpen 3, Data 0 ''ab'', Data 2 ''c'']
             @ Error 2 TimeoutError # [Data 1 ''d'', Tick])
          \<lparr>disk = Map.empty, stdout = [], timer = None, tasks = [], opened = [], promises = []\<rparr>)))
     ''pkg.Appx'' = None \<and>
   disk (snd (snd (multiPartDownload 4 ''https://host/pkg'' ''pkg.Appx'' 16000000
          ([FileOpen 0, FileOpen 1, FileOpen 2, FileOpen 3, Data 0 ''ab'', Data 2 ''c'']
             @ Error 2 TimeoutError # [Data 1 ''d'', Tick])
          \<lparr>disk = Map.empty, stdout = [], timer = None, tasks = [], opened = [], promises = []\<rparr>)))
     ''pkg.Appx.part3'' \<noteq> None"
proof -
  let ?pre = "[FileOpen 0, FileOpen 1, FileOpen 2, FileOpen 3, Data 0 ''ab'', Data 2 ''c'']"
  let ?post = "[Data 1 ''d'', Tick]"
  let ?st = "\<lparr>disk = Map.empty, stdout = [], timer = None, tasks = [], opened = [], promises = []\<rparr>"
  have a: "(2::nat) < 4" by simp
  have b: "\<forall>j e'. Error j e' \<notin> set ?pre" by simp
  have c: "Finish 2 \<notin> set ?pre" by simp
  have pf: "partFile ''pkg.Appx'' 3 = ''pkg.Appx.part3''"
    by (simp add: partFile_def decimal_small digitChar_def)
  from segment_failure_keeps_part_files [OF a b c, of "''https://host/pkg''" "''pkg.Appx''" 16000000 TimeoutError ?post ?st]
  obtain st' where r: "multiPartDownload 4 ''https://host/pkg'' ''pkg.Appx'' 16000000
        (?pre @ Error 2 TimeoutError # ?post) ?st = (Some (Inl TimeoutError), ?post, st')"
    and d: "disk st' ''pkg.Appx'' = disk ?st ''pkg.Appx''"
    and p: "\<forall>j<4. FileOpen j \<in> set ?pre \<or> (\<exists>bs. Data j bs \<in> set ?pre) \<longrightarrow>
              disk st' (partFile ''pkg.Appx'' j) \<noteq> None \<and>
              disk (eventLoop ?post st') (partFile ''pkg.Appx'' j) \<noteq> None"
    by (elim exE conjE)
  have a3: "(3::nat) < 4" and m3: "FileOpen 3 \<in> set ?pre" by simp_all
  from p a3 m3 have "disk st' (partFile ''pkg.Appx'' 3) \<noteq> None" by blast
  then have p3: "disk st' ''pkg.Appx.part3'' \<noteq> None" unfolding pf .
  show ?thesis
    unfolding r fst_conv snd_conv using a c d p3 by (intro conjI) simp_all
qed

lemma replicate_4: "replicate 4 x = [x, x, x, x]"
  by (simp add: numeral_eq_Suc)

lemmas run_simps =
  multiPartDownload_eq launched_def startParts_eq awaitAll.simps PARTS_def upt_conv_Cons
  downloadPart_def partFile_def decimal_small digitChar_def live_def openFile_def appendFile_def
  Let_def segment_def ceilDiv_def tick_def tickLoop.simps concatParts_def replicate_4

text \<open>
  C2 as stated fails in its last part: segment 2 of 4 fails, the transfer fails and no
  destination file exists, but all four part files are on disk.
\<close>

theorem segment_failure_counterexample:
  "fst (multiPartDownload PARTS ''https://host/pkg'' ''pkg.Appx'' 16000000 failingSchedule idle)
     = Some (Inl TimeoutError) \<and>
   disk (snd (snd (multiPartDownload PARTS ''https://host/pkg'' ''pkg.Appx'' 16000000 failingSchedule idle)))
     ''pkg.Appx'' = None \<and>
   disk (snd (snd (multiPartDownload PARTS ''https://host/pkg'' ''pkg.Appx'' 16000000 failingSchedule idle)))
     ''pkg.Appx.part0'' = Some ''ab'' \<and>
   disk (snd (snd (multiPartDownload PARTS ''https://host/pkg'' ''pkg.Appx'' 16000000 failingSchedule idle)))
     ''pkg.Appx.part1'' = Some [] \<and>
   disk (snd (snd (multiPartDownload PARTS ''https://host/pkg'' ''pkg.Appx'' 16000000 failingSchedule idle)))
     ''pkg.Appx.part2'' = Some ''c'' \<and>
   disk (snd (snd (multiPartDownload PARTS ''https://host/pkg'' ''pkg.Appx'' 16000000 failingSchedule idle)))
     ''pkg.Appx.part3'' = Some []"
  by (simp add: run_simps idle_def failingSchedule_def)

text \<open>
  C5 fails on the code when a segment fails. Segment 2 of 4 fails after one tick:
  \<open>multiPartDownload\<close> throws, \<open>clearInterval\<close> has not run, the timer is still set,
  and the two ticks that are due afterwards both print a progress line.
\<close>

theorem monitor_runs_after_failure:
  "fst (multiPartDownload PARTS ''https://host/pkg'' ''pkg.Appx'' 16000000 failingSchedule idle)
     = Some (Inl TimeoutError) \<and>
   fst (snd (multiPartDownload PARTS ''https://host/pkg'' ''pkg.Appx'' 16000000 failingSchedule idle))
     = [Data 1 ''d'', Tick, Tick] \<and>
   stdout (snd (snd (multiPartDownload PARTS ''https://host/pkg'' ''pkg.Appx'' 16000000 failingSchedule idle)))
     = [Progress 2 16000000] \<and>
   timer (snd (snd (multiPartDownload PARTS ''https://host/pkg'' ''pkg.Appx'' 16000000 failingSchedule idle)))
     \<noteq> None \<and>
   stdout (eventLoop [Data 1 ''d'', Tick, Tick]
      (snd (snd (multiPartDownload PARTS ''https://host/pkg'' ''pkg.Appx'' 16000000 failingSchedule idle))))
     = [Progress 2 16000000, Progress 4 16000000, Progress 4 16000000]"
  by (simp add: run_simps idle_def failingSchedule_def)

lemma tracked_promises [simp]:
  "tracked parts dest (st\<lparr>promises := ps\<rparr>) d = tracked parts dest st d"
  by (simp add: tracked_def)









lemma openFile_fields [simp]:
  "timer (openFile i st) = timer st"
  "stdout (openFile i st) = stdout st"
  "tasks (openFile i st) = tasks st"
  "promises (openFile i st) = promises st"
  "length (opened (openFile i st)) = length (opened st)"
  by (simp_all add: openFile_def)

lemma tracked_output [simp]:
  "tracked parts dest (st\<lparr>timer := x, stdout := y\<rparr>) d = tracked parts dest st d"
  by (simp add: tracked_def)

lemma tracked_cong:
  "opened st' = opened st \<Longrightarrow> disk st' = disk st \<Longrightarrow>
     tracked parts dest st' d = tracked parts dest st d"
  by (simp add: tracked_def)









text \<open>
  Why the part files have to be new: a part file left by an earlier transfer is counted
  with its old size by a tick that comes before its stream opens and truncates it.
\<close>

lemma stale_part_file_lowers_progress:
  "stdout (snd (snd (multiPartDownload PARTS ''https://host/pkg'' ''pkg.Appx'' 16000000
      [Tick, FileOpen 0, FileOpen 1, FileOpen 2, FileOpen 3, Tick]
      (idle\<lparr>disk := [''pkg.Appx.part0'' \<mapsto> ''stale'']\<rparr>))))
     = [Progress 5 16000000, Progress 0 16000000]"
  by (simp add: run_simps idle_def)

subsection \<open>The probe, the choice of strategy and the requests\<close>

lemma streamLoop_frame:
  "p \<noteq> dest \<Longrightarrow> disk (snd (streamLoop dest es isOpen tot st)) p = disk st p"
  by (induction dest es isOpen tot st rule: streamLoop.induct)
    (simp_all add: Let_def appendFile_def)

lemma fallbackDownload_frame:
  "p \<noteq> dest \<Longrightarrow> disk (snd (fallbackDownload ses dest fileSize st)) p = disk st p"
  by (simp add: fallbackDownload_def streamLoop_frame)

lemma guard_iff: "multiPartGuard fileSize ranged = (ranged \<and> greater fileSize (10 * 1024 * 1024))"
  by (cases fileSize) (auto simp: multiPartGuard_def)

text \<open>
  C4 (amended). When both HEAD requests succeed, with \<open>fileSize\<close> the parsed
  \<open>content-length\<close> and \<open>ranged\<close> telling whether \<open>accept-ranges\<close> is \<open>bytes\<close>:
  if \<open>ranged\<close> holds and \<open>fileSize\<close> is a number greater than 10 MiB, the transfer is
  the multi-part one, announced on the console; in every other case (no range support,
  or a size that is \<open>NaN\<close> or at most 10 MiB) it is the plain download, which changes no
  path but the destination, so it creates no part file.
\<close>

theorem strategy_choice:
  assumes f: "getFileSize (headSize net) = Inr fileSize"
    and r: "supportsRange (headRange net) = Inr ranged"
  shows "(ranged \<and> greater fileSize (10 * 1024 * 1024) \<longrightarrow>
            downloadWithResume net url dest st =
              (case multiPartDownload PARTS url dest (orZero fileSize) (partEvents net)
                      (st\<lparr>stdout := stdout st @ [Log RangeMultiPart]\<rparr>) of
                 (r, es', st') \<Rightarrow> (r, st'))) \<and>
         (\<not> ranged \<or> \<not> greater fileSize (10 * 1024 * 1024) \<longrightarrow>
            downloadWithResume net url dest st = fallbackDownload (streamEvents net) dest fileSize st \<and>
            (\<forall>p. p \<noteq> dest \<longrightarrow> disk (snd (downloadWithResume net url dest st)) p = disk st p))"
proof -
  have pr: "probe net st = (fileSize, ranged, st)"
    by (simp add: probe_def f r)
  show ?thesis
    by (auto simp: downloadWithResume_def pr guard_iff Let_def fallbackDownload_frame split: prod.splits)
qed

text \<open>
  The sizes \<open>parseInt\<close> returns are doubles: exact below \<open>2^53\<close>, rounded to the nearest
  double above, to the even one at a tie.
\<close>

lemma toDouble_exact: "n < 2 ^ 53 \<Longrightarrow> toDouble n = n"
  by (simp add: toDouble_def)

lemma toDouble_rounds:
  "toDouble 9007199254740993 = 9007199254740992 \<and>
   toDouble 9007199254740994 = 9007199254740994 \<and>
   toDouble 9007199254740995 = 9007199254740996 \<and>
   toDouble 18446744073709551615 = 18446744073709551616"
  by (simp add: toDouble_def bitLength.simps)

lemma parseInt_rounds: "parseInt ''9007199254740993'' = Num 9007199254740992"
  by (simp add: parseInt_def toDouble_def bitLength.simps isWhiteSpace_def isDigit_def digitVal_def)

lemma parseInt_5000000: "parseInt ''5000000'' = Num 5000000"
  by (simp add: parseInt_def toDouble_def isWhiteSpace_def isDigit_def digitVal_def)

lemma parseInt_16000000: "parseInt ''16000000'' = Num 16000000"
  by (simp add: parseInt_def toDouble_def isWhiteSpace_def isDigit_def digitVal_def)

lemma parseInt_10485760: "parseInt ''10485760'' = Num 10485760"
  by (simp add: parseInt_def toDouble_def isWhiteSpace_def isDigit_def digitVal_def)

text \<open>
  The scenario of 5,000,000 bytes with range support: the plain download runs and
  no part file appears. With 16,000,000 bytes the multi-part transfer runs.
\<close>

theorem strategy_choice_witness:
  "getFileSize (Inr [''content-length'' \<mapsto> ''5000000'']) = Inr (Num 5000000) \<and>
   supportsRange (Inr [''accept-ranges'' \<mapsto> ''bytes'']) = Inr True \<and>
   \<not> greater (Num 5000000) (10 * 1024 * 1024) \<and>
   downloadWithResume \<lparr>headSize = Inr [''content-length'' \<mapsto> ''5000000''],
        headRange = Inr [''accept-ranges'' \<mapsto> ''bytes''],
        partEvents = [], streamEvents = [SOpen, SData ''abc'', SFinish]\<rparr>
      ''https://host/pkg'' ''pkg.Appx'' idle
    = fallbackDownload [SOpen, SData ''abc'', SFinish] ''pkg.Appx'' (Num 5000000) idle \<and>
   disk (snd (downloadWithResume \<lparr>headSize = Inr [''content-length'' \<mapsto> ''5000000''],
        headRange = Inr [''accept-ranges'' \<mapsto> ''bytes''],
        partEvents = [], streamEvents = [SOpen, SData ''abc'', SFinish]\<rparr>
      ''https://host/pkg'' ''pkg.Appx'' idle)) ''pkg.Appx.part0'' = None \<and>
   getFileSize (Inr [''content-length'' \<mapsto> ''16000000'']) = Inr (Num 16000000) \<and>
   greater (Num 16000000) (10 * 1024 * 1024) \<and>
   fst (downloadWithResume \<lparr>headSize = Inr [''content-length'' \<mapsto> ''16000000''],
        headRange = Inr [''accept-ranges'' \<mapsto> ''bytes''],
        partEvents = halfWaySchedule, streamEvents = []\<rparr>
      ''https://host/pkg'' ''pkg.Appx'' idle) = Some (Inr ()) \<and>
   stdout (snd (downloadWithResume \<lparr>headSize = Inr [''content-length'' \<mapsto> ''16000000''],
        headRange = Inr [''accept-ranges'' \<mapsto> ''bytes''],
        partEvents = halfWaySchedule, streamEvents = []\<rparr>
      ''https://host/pkg'' ''pkg.Appx'' idle))
     = [Log RangeMultiPart, Progress 8000000 16000000, Newline]"
proof -
  let ?small = "\<lparr>headSize = Inr [''content-length'' \<mapsto> ''5000000''],
        headRange = Inr [''accept-ranges'' \<mapsto> ''bytes''],
        partEvents = [], streamEvents = [SOpen, SData ''abc'', SFinish]\<rparr>"
  let ?large = "\<lparr>headSize = Inr [''content-length'' \<mapsto> ''16000000''],
        headRange = Inr [''accept-ranges'' \<mapsto> ''bytes''],
        partEvents = halfWaySchedule, streamEvents = []\<rparr>"
  have f: "getFileSize (headSize ?small) = Inr (Num 5000000)"
    by (simp add: getFileSize_def parseInt_5000000)
  have r: "supportsRange (headRange ?small) = Inr True"
    by (simp add: supportsRange_def)
  have g: "\<not> greater (Num 5000000) (10 * 1024 * 1024)" by simp
  from strategy_choice [OF f r, of "''https://host/pkg''" "''pkg.Appx''" idle] g
  have e: "downloadWithResume ?small ''https://host/pkg'' ''pkg.Appx'' idle
        = fallbackDownload (streamEvents ?small) ''pkg.Appx'' (Num 5000000) idle"
    and d: "\<forall>p. p \<noteq> ''pkg.Appx'' \<longrightarrow>
          disk (snd (downloadWithResume ?small ''https://host/pkg'' ''pkg.Appx'' idle)) p = disk idle p"
    by blast+
  from d have n: "disk (snd (downloadWithResume ?small ''https://host/pkg'' ''pkg.Appx'' idle)) ''pkg.Appx.part0'' = None"
    by (simp add: idle_def)
  have f': "getFileSize (headSize ?large) = Inr (Num 16000000)"
    by (simp add: getFileSize_def parseInt_16000000)
  have r': "supportsRange (headRange ?large) = Inr True"
    by (simp add: supportsRange_def)
  have g': "greater (Num 16000000) (10 * 1024 * 1024)" by simp
  from strategy_choice [OF f' r', of "''https://host/pkg''" "''pkg.Appx''" idle] g'
  have m: "downloadWithResume ?large ''https://host/pkg'' ''pkg.Appx'' idle =
      (case multiPartDownload PARTS ''https://host/pkg'' ''pkg.Appx'' (orZero (Num 16000000))
              (partEvents ?large) (idle\<lparr>stdout := stdout idle @ [Log RangeMultiPart]\<rparr>) of
         (r, es', st') \<Rightarrow> (r, st'))"
    by blast
  have m1: "fst (downloadWithResume ?large ''https://host/pkg'' ''pkg.Appx'' idle) = Some (Inr ())"
    unfolding m by (simp add: run_simps idle_def halfWaySchedule_def)
  have m2: "stdout (snd (downloadWithResume ?large ''https://host/pkg'' ''pkg.Appx'' idle))
     = [Log RangeMultiPart, Progress 8000000 16000000, Newline]"
    unfolding m by (simp add: run_simps idle_def halfWaySchedule_def)
  from f r f' have hs: "getFileSize (Inr [''content-length'' \<mapsto> ''5000000'']) = Inr (Num 5000000)"
    "supportsRange (Inr [''accept-ranges'' \<mapsto> ''bytes'']) = Inr True"
    "getFileSize (Inr [''content-length'' \<mapsto> ''16000000'']) = Inr (Num 16000000)"
    by simp_all
  from e have e': "downloadWithResume ?small ''https://host/pkg'' ''pkg.Appx'' idle
        = fallbackDownload [SOpen, SData ''abc'', SFinish] ''pkg.Appx'' (Num 5000000) idle"
    by simp
  from hs g e' n g' m1 m2 show ?thesis by (intro conjI)
qed

text \<open>
  C4 as stated fails at the threshold itself: a size of exactly 10 MiB is not below
  10 MiB and the server supports ranges, yet the plain download runs (the guard of
  line 123 compares strictly): nothing announces a multi-part transfer, no segment is
  started, and the destination is written by the single stream.
\<close>

theorem threshold_boundary_counterexample:
  "getFileSize (Inr [''content-length'' \<mapsto> ''10485760'']) = Inr (Num 10485760) \<and>
   supportsRange (Inr [''accept-ranges'' \<mapsto> ''bytes'']) = Inr True \<and>
   \<not> (10485760 :: int) < 10 * 1024 * 1024 \<and>
   downloadWithResume \<lparr>headSize = Inr [''content-length'' \<mapsto> ''10485760''],
        headRange = Inr [''accept-ranges'' \<mapsto> ''bytes''],
        partEvents = [FileOpen 0, FileOpen 1, FileOpen 2, FileOpen 3],
        streamEvents = [SOpen, SData (replicate 10485760 (CHR ''x'')), SProgress 10485760 (Some 10485760), SFinish]\<rparr>
      ''https://host/pkg'' ''pkg.Appx''
      \<lparr>disk = Map.empty, stdout = [], timer = None, tasks = [], opened = [], promises = []\<rparr>
    = (Some (Inr ()),
       \<lparr>disk = [''pkg.Appx'' \<mapsto> replicate 10485760 (CHR ''x'')],
        stdout = [Progress 10485760 10485760, Newline], timer = None, tasks = [], opened = [], promises = []\<rparr>)"
  by (simp add: getFileSize_def supportsRange_def parseInt_10485760 downloadWithResume_def probe_def
      multiPartGuard_def fallbackDownload_def appendFile_def Let_def)

lemma parseInt_undefined: "parseInt ''undefined'' = NaN"
  by (simp add: parseInt_def isWhiteSpace_def isDigit_def)

text \<open>
  C7 (amended). When the HTTP client throws in the first HEAD request, or in the second
  one after the first gave a size, the console gets the fallback message and the plain
  download runs; the transfer's result is the plain download's, the probe's error is
  dropped. A response without \<open>content-length\<close> is no failure of the probe: the plain
  download runs from the unchanged state, with nothing written to the console for it.
\<close>

theorem probe_failure_falls_back:
  "(headSize net = Inl e \<longrightarrow>
      downloadWithResume net url dest st =
        fallbackDownload (streamEvents net) dest Undefined
          (st\<lparr>stdout := stdout st @ [Log HeadFailedFallback]\<rparr>)) \<and>
   (getFileSize (headSize net) = Inr fileSize \<and> headRange net = Inl e \<longrightarrow>
      downloadWithResume net url dest st =
        fallbackDownload (streamEvents net) dest fileSize
          (st\<lparr>stdout := stdout st @ [Log HeadFailedFallback]\<rparr>)) \<and>
   (headSize net = Inr hs \<and> hs ''content-length'' = None \<and> headRange net = Inr hr \<longrightarrow>
      downloadWithResume net url dest st = fallbackDownload (streamEvents net) dest NaN st)"
  by (auto simp: downloadWithResume_def probe_def getFileSize_def supportsRange_def
      multiPartGuard_def parseInt_undefined Let_def)

text \<open>
  The first HEAD request is answered with status 503; the second one fails after the
  first gave 16,000,000 bytes; the first response has no \<open>content-length\<close>.
\<close>

theorem probe_failure_falls_back_witness:
  "downloadWithResume
      \<lparr>headSize = Inl (HTTPError 503), headRange = Inr [''accept-ranges'' \<mapsto> ''bytes''],
        partEvents = [], streamEvents = [SOpen, SData ''abc'', SFinish]\<rparr>
      ''https://host/pkg'' ''pkg.Appx'' idle
    = (Some (Inr ()),
       idle\<lparr>disk := [''pkg.Appx'' \<mapsto> ''abc''], stdout := [Log HeadFailedFallback, Newline]\<rparr>) \<and>
   getFileSize (Inr [''content-length'' \<mapsto> ''16000000'']) = Inr (Num 16000000) \<and>
   downloadWithResume
      \<lparr>headSize = Inr [''content-length'' \<mapsto> ''16000000''], headRange = Inl NetworkError,
        partEvents = [], streamEvents = [SOpen, SData ''abc'', SProgress 3 None, SFinish]\<rparr>
      ''https://host/pkg'' ''pkg.Appx'' idle
    = (Some (Inr ()),
       idle\<lparr>disk := [''pkg.Appx'' \<mapsto> ''abc''],
            stdout := [Log HeadFailedFallback, Progress 3 16000000, Newline]\<rparr>) \<and>
   downloadWithResume
      \<lparr>headSize = Inr Map.empty, headRange = Inr [''accept-ranges'' \<mapsto> ''bytes''],
        partEvents = [], streamEvents = [SOpen, SData ''abc'', SProgress 3 None, SFinish]\<rparr>
      ''https://host/pkg'' ''pkg.Appx'' idle
    = (Some (Inr ()),
       idle\<lparr>disk := [''pkg.Appx'' \<mapsto> ''abc''], stdout := [ProgressBytes 3, Newline]\<rparr>)"
proof -
  let ?n1 = "\<lparr>headSize = Inl (HTTPError 503), headRange = Inr [''accept-ranges'' \<mapsto> ''bytes''],
        partEvents = [], streamEvents = [SOpen, SData ''abc'', SFinish]\<rparr>"
  let ?n2 = "\<lparr>headSize = Inr [''content-length'' \<mapsto> ''16000000''], headRange = Inl NetworkError,
        partEvents = [], streamEvents = [SOpen, SData ''abc'', SProgress 3 None, SFinish]\<rparr>"
  let ?n3 = "\<lparr>headSize = Inr Map.empty, headRange = Inr [''accept-ranges'' \<mapsto> ''bytes''],
        partEvents = [], streamEvents = [SOpen, SData ''abc'', SProgress 3 None, SFinish]\<rparr>"
  have h1: "headSize ?n1 = Inl (HTTPError 503)" by simp
  have h2: "getFileSize (headSize ?n2) = Inr (Num 16000000) \<and> headRange ?n2 = Inl NetworkError"
    by (simp add: getFileSize_def parseInt_16000000)
  have h3: "headSize ?n3 = Inr Map.empty \<and> Map.empty ''content-length'' = None \<and>
      headRange ?n3 = Inr [''accept-ranges'' \<mapsto> ''bytes'']"
    by simp
  from probe_failure_falls_back [where net = ?n1 and e = "HTTPError 503"
      and url = "''https://host/pkg''" and dest = "''pkg.Appx''" and st = idle] h1
  have a: "downloadWithResume ?n1 ''https://host/pkg'' ''pkg.Appx'' idle =
        fallbackDownload (streamEvents ?n1) ''pkg.Appx'' Undefined
          (idle\<lparr>stdout := stdout idle @ [Log HeadFailedFallback]\<rparr>)"
    by blast
  from probe_failure_falls_back [where net = ?n2 and e = NetworkError and fileSize = "Num 16000000"
      and url = "''https://host/pkg''" and dest = "''pkg.Appx''" and st = idle] h2
  have b: "downloadWithResume ?n2 ''https://host/pkg'' ''pkg.Appx'' idle =
        fallbackDownload (streamEvents ?n2) ''pkg.Appx'' (Num 16000000)
          (idle\<lparr>stdout := stdout idle @ [Log HeadFailedFallback]\<rparr>)"
    by blast
  from probe_failure_falls_back [where net = ?n3 and hs = Map.empty
      and hr = "[''accept-ranges'' \<mapsto> ''bytes'']"
      and url = "''https://host/pkg''" and dest = "''pkg.Appx''" and st = idle] h3
  have c: "downloadWithResume ?n3 ''https://host/pkg'' ''pkg.Appx'' idle =
        fallbackDownload (streamEvents ?n3) ''pkg.Appx'' NaN idle"
    by blast
  have s: "getFileSize (Inr [''content-length'' \<mapsto> ''16000000'']) = Inr (Num 16000000)"
    by (simp add: getFileSize_def parseInt_16000000)
  show ?thesis
    unfolding a b c using s
    by (simp add: fallbackDownload_def appendFile_def Let_def idle_def)
qed

text \<open>
  C7 as stated fails for the missing size header: the transfer falls back, but the
  console shows no message about the probe.
\<close>

theorem missing_size_header_counterexample:
  "getFileSize (Inr Map.empty) = Inr NaN \<and>
   downloadWithResume
      \<lparr>headSize = Inr Map.empty, headRange = Inr [''accept-ranges'' \<mapsto> ''bytes''],
        partEvents = [], streamEvents = [SOpen, SData ''abc'', SFinish]\<rparr>
      ''https://host/pkg'' ''pkg.Appx''
      \<lparr>disk = Map.empty, stdout = [], timer = None, tasks = [], opened = [], promises = []\<rparr>
    = (Some (Inr ()),
       \<lparr>disk = [''pkg.Appx'' \<mapsto> ''abc''], stdout = [Newline],
        timer = None, tasks = [], opened = [], promises = []\<rparr>)"
  by (simp add: getFileSize_def supportsRange_def parseInt_undefined downloadWithResume_def probe_def
      multiPartGuard_def fallbackDownload_def appendFile_def Let_def)

text \<open>
  C9. Both HEAD requests succeed and the first response has no \<open>content-length\<close>
  (the one way a response the client accepts can be without a size that \<open>parseInt\<close>
  reads). Then \<open>getFileSize\<close> gives \<open>NaN\<close>, the guard of line 123 is false whatever
  \<open>accept-ranges\<close> says, and the plain download runs from the unchanged state: no
  message, no error from the probe.
\<close>

theorem missing_size_falls_back_silently:
  assumes "headSize net = Inr hs"
    and "hs ''content-length'' = None"
    and "headRange net = Inr hr"
  shows "getFileSize (headSize net) = Inr NaN \<and>
         \<not> multiPartGuard NaN (hr ''accept-ranges'' = Some ''bytes'') \<and>
         downloadWithResume net url dest st = fallbackDownload (streamEvents net) dest NaN st"
  using assms
  by (auto simp: downloadWithResume_def probe_def getFileSize_def supportsRange_def
      multiPartGuard_def parseInt_undefined Let_def)

text \<open>
  A server that supports ranges and sends no \<open>content-length\<close>: the package arrives by
  the plain download, the console shows the byte count of the stream and no message.
\<close>

theorem missing_size_falls_back_silently_witness:
  "supportsRange (Inr [''accept-ranges'' \<mapsto> ''bytes'']) = Inr True \<and>
   getFileSize (Inr [''server'' \<mapsto> ''nginx'']) = Inr NaN \<and>
   downloadWithResume
      \<lparr>headSize = Inr [''server'' \<mapsto> ''nginx''],
        headRange = Inr [''accept-ranges'' \<mapsto> ''bytes''],
        partEvents = [], streamEvents = [SOpen, SData ''abc'', SProgress 3 None, SFinish]\<rparr>
      ''https://host/pkg'' ''pkg.Appx''
      \<lparr>disk = Map.empty, stdout = [], timer = None, tasks = [], opened = [], promises = []\<rparr>
    = (Some (Inr ()),
       \<lparr>disk = [''pkg.Appx'' \<mapsto> ''abc''], stdout = [ProgressBytes 3, Newline],
        timer = None, tasks = [], opened = [], promises = []\<rparr>)"
proof -
  let ?hs = "[''server'' \<mapsto> ''nginx'']"
  let ?hr = "[''accept-ranges'' \<mapsto> ''bytes'']"
  let ?net = "\<lparr>headSize = Inr ?hs, headRange = Inr ?hr,
        partEvents = [], streamEvents = [SOpen, SData ''abc'', SProgress 3 None, SFinish]\<rparr>"
  let ?st = "\<lparr>disk = Map.empty, stdout = [], timer = None, tasks = [], opened = [], promises = []\<rparr>"
  have a: "headSize ?net = Inr ?hs" by simp
  have b: "?hs ''content-length'' = None" by simp
  have c: "headRange ?net = Inr ?hr" by simp
  from missing_size_falls_back_silently [OF a b c, of "''https://host/pkg''" "''pkg.Appx''" ?st]
  have g: "getFileSize (headSize ?net) = Inr NaN"
    and r: "downloadWithResume ?net ''https://host/pkg'' ''pkg.Appx'' ?st
        = fallbackDownload (streamEvents ?net) ''pkg.Appx'' NaN ?st"
    by blast+
  from g have g': "getFileSize (Inr ?hs) = Inr NaN" by simp
  from r g' show ?thesis
    by (simp add: fallbackDownload_def appendFile_def Let_def supportsRange_def)
qed







end
